theory Spec2Isabelle
  imports Complex_Main "HOL-Library.Multiset"
begin

section \<open>The BSP tree of PengWM (src/bsp.c, src/bsp.h)\<close>

text \<open>
  The tree engine of the window manager is embedded as pure functions over a value that
  mirrors \<^verbatim>\<open>struct BSPNode\<close> field by field. A function of the source that mutates the
  node it is given returns the updated node here.

  \<^item> \<^verbatim>\<open>CGRect\<close> is the record \<open>CGRect\<close> with the four coordinates \<^verbatim>\<open>origin.x\<close>,
    \<^verbatim>\<open>origin.y\<close>, \<^verbatim>\<open>size.width\<close>, \<^verbatim>\<open>size.height\<close>, each a \<^verbatim>\<open>CGFloat\<close>: an IEEE 754
    \<^verbatim>\<open>double\<close>, whose division and addition round.
  \<^item> \<^verbatim>\<open>int window_id\<close> is an \<open>int\<close>; identifiers are only compared, never computed
    with. The source marks an empty leaf by the value \<open>-1\<close>.
  \<^item> The owning pointers \<^verbatim>\<open>first\<close> and \<^verbatim>\<open>second\<close> are \<open>BSPNode option\<close>, with
    \<open>None\<close> for \<^verbatim>\<open>NULL\<close>.
  \<^item> The non-owning \<^verbatim>\<open>parent\<close> pointer is not a field of the value. The source keeps
    \<^verbatim>\<open>child->parent\<close> equal to the node that owns the child (bsp.c lines 146, 158, 256,
    257, 271, 272) and the root's parent \<^verbatim>\<open>NULL\<close> (line 94), so the chain of parent
    pointers of a node is its position in the tree: the list of child slots passed on the
    way up to the root. The neighbour search, the only reader of \<^verbatim>\<open>parent\<close>, takes the
    root and such a position.
  \<^item> \<^verbatim>\<open>calloc\<close> may fail: the functions that allocate take, for each \<^verbatim>\<open>calloc\<close> they
    reach, a boolean that tells whether it succeeds.
  \<^item> Dereferencing \<^verbatim>\<open>NULL\<close> is a result of its own: the functions that can do it return
    an \<open>option\<close>, with \<open>None\<close> for the crash.
\<close>

subsection \<open>CGFloat\<close>

text \<open>
  \<^verbatim>\<open>CGFloat\<close> is declared by CoreGraphics, outside the sources: on the 64-bit platforms
  the window manager runs on it is the IEEE 754 binary64 \<^verbatim>\<open>double\<close>, and each
  operation is rounded to it, to nearest with ties to even. A value is a finite number,
  an infinity or a NaN; the two zeros are one value here, since no operation of the
  source tells them apart.
\<close>

datatype CGFloat = Finite real | PlusInfinity | MinusInfinity | NaN

text \<open>Rounding a real to the nearest integer, a tie to the even one.\<close>

definition round_half_even :: "real \<Rightarrow> int" where
  "round_half_even r =
     (let f = \<lfloor>r\<rfloor>; d = r - of_int f
      in if d < 1 / 2 then f
         else if 1 / 2 < d then f + 1
         else if even f then f else f + 1)"

text \<open>The exponent of the unit in the last place of a magnitude \<open>a\<close>: the largest \<open>q\<close>
  from \<open>-1074\<close> to \<open>971\<close> with \<open>2^(q + 52) \<le> a\<close>, and \<open>-1074\<close> when there is none (the
  subnormal numbers and the first binade of the normal ones). The search tries the
  exponents from the top.\<close>

fun ulp_search :: "nat \<Rightarrow> real \<Rightarrow> int" where
  "ulp_search 0 a = - 1074"
| "ulp_search (Suc n) a =
     (if power_int 2 (int (Suc n) - 1022) \<le> a then int (Suc n) - 1074
      else ulp_search n a)"

definition ulp_exponent :: "real \<Rightarrow> int" where
  "ulp_exponent a = ulp_search 2045 a"

text \<open>The double nearest to a real: the magnitude is rounded to a multiple of its unit in
  the last place, and a result of \<open>2^1024\<close> or more is the infinity of its sign.\<close>

definition round_double :: "real \<Rightarrow> CGFloat" where
  "round_double x =
     (let a = \<bar>x\<bar>;
          q = ulp_exponent a;
          y = of_int (round_half_even (a / power_int 2 q)) * power_int 2 q
      in if 2 ^ 1024 \<le> y then (if 0 < x then PlusInfinity else MinusInfinity)
         else Finite (if 0 < x then y else - y))"

text \<open>The three operations that bsp.c performs on a \<^verbatim>\<open>CGFloat\<close>: the comparison \<^verbatim>\<open>>\<close>
  of line 116, the division \<^verbatim>\<open>/= 2\<close> of lines 127, 129, 132, 134 and the addition
  \<^verbatim>\<open>+=\<close> of lines 128 and 133. A comparison with a NaN is false.\<close>

fun cgfloat_gt :: "CGFloat \<Rightarrow> CGFloat \<Rightarrow> bool" where
  "cgfloat_gt (Finite x) (Finite y) = (y < x)"
| "cgfloat_gt NaN b = False"
| "cgfloat_gt a NaN = False"
| "cgfloat_gt MinusInfinity b = False"
| "cgfloat_gt a PlusInfinity = False"
| "cgfloat_gt PlusInfinity b = True"
| "cgfloat_gt a MinusInfinity = True"

fun cgfloat_div2 :: "CGFloat \<Rightarrow> CGFloat" where
  "cgfloat_div2 (Finite x) = round_double (x / 2)"
| "cgfloat_div2 a = a"

fun cgfloat_add :: "CGFloat \<Rightarrow> CGFloat \<Rightarrow> CGFloat" where
  "cgfloat_add (Finite x) (Finite y) = round_double (x + y)"
| "cgfloat_add NaN b = NaN"
| "cgfloat_add a NaN = NaN"
| "cgfloat_add PlusInfinity MinusInfinity = NaN"
| "cgfloat_add MinusInfinity PlusInfinity = NaN"
| "cgfloat_add PlusInfinity b = PlusInfinity"
| "cgfloat_add MinusInfinity b = MinusInfinity"
| "cgfloat_add (Finite x) b = b"

subsection \<open>Data\<close>

record CGRect =
  origin_x :: CGFloat
  origin_y :: CGFloat
  size_width :: CGFloat
  size_height :: CGFloat

datatype BSPNode = BSPNode
  (is_leaf: bool)
  (window_id: int)
  (rect: CGRect)
  (split_vertical: bool)
  (first: "BSPNode option")
  (second: "BSPNode option")

datatype slot = First | Second

text \<open>A path leads from the root downwards; a position is the parent chain of a node,
  nearest slot first.\<close>

type_synonym path = "slot list"
type_synonym pos = "slot list"

subsection \<open>Creation, split, insert\<close>

text \<open>\<^verbatim>\<open>bsp_create_root\<close>, lines 80-97, when its \<^verbatim>\<open>calloc\<close> succeeds.\<close>

definition bsp_create_root :: "CGRect \<Rightarrow> BSPNode" where
  "bsp_create_root screen_rect = BSPNode True (- 1) screen_rect False None None"

text \<open>\<^verbatim>\<open>bsp_split_leaf\<close>, lines 105-163. \<open>alloc1\<close> and \<open>alloc2\<close> say whether the first and
  the second \<^verbatim>\<open>calloc\<close> succeed. The two assignments of lines 118-119 come before the
  allocations, so they are part of every outcome. A node from \<^verbatim>\<open>calloc\<close> is zeroed:
  its \<^verbatim>\<open>split_vertical\<close> is false and its children are \<^verbatim>\<open>NULL\<close>.\<close>

definition bsp_split_leaf :: "bool \<Rightarrow> bool \<Rightarrow> BSPNode \<Rightarrow> int \<Rightarrow> BSPNode" where
  "bsp_split_leaf alloc1 alloc2 leaf new_window_id =
     (if \<not> is_leaf leaf then leaf
      else
        let r = rect leaf;
            sv = cgfloat_gt (size_width r) (size_height r);
            marked = BSPNode False (window_id leaf) r sv (first leaf) (second leaf);
            r1 = (if sv then r\<lparr>size_width := cgfloat_div2 (size_width r)\<rparr>
                  else r\<lparr>size_height := cgfloat_div2 (size_height r)\<rparr>);
            r2 = (if sv then r\<lparr>origin_x := cgfloat_add (origin_x r) (size_width r1),
                                 size_width := cgfloat_div2 (size_width r)\<rparr>
                  else r\<lparr>origin_y := cgfloat_add (origin_y r) (size_height r1),
                         size_height := cgfloat_div2 (size_height r)\<rparr>)
        in if \<not> alloc1 then marked
           else if \<not> alloc2 then marked
           else BSPNode False (- 1) r sv
                  (Some (BSPNode True (window_id leaf) r1 False None None))
                  (Some (BSPNode True new_window_id r2 False None None)))"

text \<open>\<^verbatim>\<open>bsp_insert\<close>, lines 171-193. The call on a \<^verbatim>\<open>NULL\<close> first child returns at once
  (line 173), which leaves the node as it is.\<close>

fun bsp_insert :: "bool \<Rightarrow> bool \<Rightarrow> BSPNode \<Rightarrow> int \<Rightarrow> BSPNode" where
  "bsp_insert alloc1 alloc2 (BSPNode il wid r sv fo so) w =
     (if il then
        (if wid = - 1 then BSPNode il w r sv fo so
         else bsp_split_leaf alloc1 alloc2 (BSPNode il wid r sv fo so) w)
      else
        (case fo of
           None \<Rightarrow> BSPNode il wid r sv fo so
         | Some f \<Rightarrow> BSPNode il wid r sv (Some (bsp_insert alloc1 alloc2 f w)) so))"

subsection \<open>Collapse and remove\<close>

text \<open>\<^verbatim>\<open>bsp_collapse_empty_branches\<close>, lines 233-276. Lines 242-243 dereference both
  children of a node that is not a leaf: a \<^verbatim>\<open>NULL\<close> child is the crash \<open>None\<close>. The
  node keeps its own \<^verbatim>\<open>rect\<close>; the other five fields are those of the replacement.\<close>

definition bsp_collapse_empty_branches :: "BSPNode \<Rightarrow> BSPNode option" where
  "bsp_collapse_empty_branches node =
     (if is_leaf node then Some node
      else
        (case (first node, second node) of
           (Some f, Some s) \<Rightarrow>
             let first_empty = (is_leaf f \<and> window_id f = - 1);
                 second_empty = (is_leaf s \<and> window_id s = - 1)
             in if first_empty \<and> \<not> second_empty then
                  Some (BSPNode (is_leaf s) (window_id s) (rect node) (split_vertical s)
                          (first s) (second s))
                else if second_empty \<and> \<not> first_empty then
                  Some (BSPNode (is_leaf f) (window_id f) (rect node) (split_vertical f)
                          (first f) (second f))
                else Some node
         | _ \<Rightarrow> None))"

text \<open>\<^verbatim>\<open>bsp_remove_window\<close>, lines 203-226. The result is the returned boolean and the
  node afterwards. The \<^verbatim>\<open>||\<close> of line 218 does not search the second child when the
  first one held the window; a \<^verbatim>\<open>NULL\<close> child answers false (line 205).\<close>

fun bsp_remove_window :: "BSPNode \<Rightarrow> int \<Rightarrow> (bool \<times> BSPNode) option" where
  "bsp_remove_window (BSPNode il wid r sv fo so) w =
     (if il then
        (if wid = w then Some (True, BSPNode il (- 1) r sv fo so)
         else Some (False, BSPNode il wid r sv fo so))
      else
        (case (case fo of None \<Rightarrow> Some (False, None)
               | Some f \<Rightarrow> map_option (\<lambda>(b, f'). (b, Some f')) (bsp_remove_window f w)) of
           None \<Rightarrow> None
         | Some (True, fo') \<Rightarrow>
             map_option (Pair True) (bsp_collapse_empty_branches (BSPNode il wid r sv fo' so))
         | Some (False, fo') \<Rightarrow>
             (case (case so of None \<Rightarrow> Some (False, None)
                    | Some s \<Rightarrow> map_option (\<lambda>(b, s'). (b, Some s')) (bsp_remove_window s w)) of
                None \<Rightarrow> None
              | Some (True, so') \<Rightarrow>
                  map_option (Pair True)
                    (bsp_collapse_empty_branches (BSPNode il wid r sv fo' so'))
              | Some (False, so') \<Rightarrow> Some (False, BSPNode il wid r sv fo' so'))))"

subsection \<open>Traversal\<close>

text \<open>\<^verbatim>\<open>bsp_traverse\<close>, lines 475-491, with a callback that records the node it is given:
  the result is the list of the leaves visited, in visiting order.\<close>

fun bsp_traverse :: "BSPNode option \<Rightarrow> BSPNode list" where
  "bsp_traverse None = []"
| "bsp_traverse (Some (BSPNode il wid r sv fo so)) =
     (if il then [BSPNode il wid r sv fo so]
      else bsp_traverse fo @ bsp_traverse so)"

text \<open>The window identifiers held by the leaves, in visiting order: an empty leaf
  (\<^verbatim>\<open>window_id == -1\<close>, as tested in lines 163 and 242 of the sources) holds none.\<close>

definition windows :: "BSPNode \<Rightarrow> int list" where
  "windows t = filter (\<lambda>w. w \<noteq> - 1) (map window_id (bsp_traverse (Some t)))"

text \<open>The number of leaves whose \<^verbatim>\<open>window_id\<close> field is \<open>w\<close>.\<close>

definition holders :: "BSPNode \<Rightarrow> int \<Rightarrow> nat" where
  "holders t w = length (filter (\<lambda>l. window_id l = w) (bsp_traverse (Some t)))"

subsection \<open>Neighbour search\<close>

text \<open>The node a pointer reaches from \<open>n\<close> along a path; \<open>deref rt p\<close> is the node
  whose parent chain in the tree of \<open>rt\<close> is \<open>p\<close>.\<close>

fun node_at :: "BSPNode option \<Rightarrow> path \<Rightarrow> BSPNode option" where
  "node_at n [] = n"
| "node_at None (d # p) = None"
| "node_at (Some n) (First # p) = node_at (first n) p"
| "node_at (Some n) (Second # p) = node_at (second n) p"

definition deref :: "BSPNode \<Rightarrow> pos \<Rightarrow> BSPNode option" where
  "deref rt p = node_at (Some rt) (rev p)"

text \<open>The four descents of lines 409-448. Each takes the node pointer (the node and its
  position) and returns the position of the leaf it stops at, \<open>None\<close> for \<^verbatim>\<open>NULL\<close>.\<close>

fun bsp_find_leftmost_leaf :: "BSPNode option \<Rightarrow> pos \<Rightarrow> pos option" where
  "bsp_find_leftmost_leaf None p = None"
| "bsp_find_leftmost_leaf (Some (BSPNode il wid r sv fo so)) p =
     (if il then Some p else bsp_find_leftmost_leaf fo (First # p))"

fun bsp_find_rightmost_leaf :: "BSPNode option \<Rightarrow> pos \<Rightarrow> pos option" where
  "bsp_find_rightmost_leaf None p = None"
| "bsp_find_rightmost_leaf (Some (BSPNode il wid r sv fo so)) p =
     (if il then Some p else bsp_find_rightmost_leaf so (Second # p))"

fun bsp_find_topmost_leaf :: "BSPNode option \<Rightarrow> pos \<Rightarrow> pos option" where
  "bsp_find_topmost_leaf None p = None"
| "bsp_find_topmost_leaf (Some (BSPNode il wid r sv fo so)) p =
     (if il then Some p else bsp_find_topmost_leaf fo (First # p))"

fun bsp_find_bottommost_leaf :: "BSPNode option \<Rightarrow> pos \<Rightarrow> pos option" where
  "bsp_find_bottommost_leaf None p = None"
| "bsp_find_bottommost_leaf (Some (BSPNode il wid r sv fo so)) p =
     (if il then Some p else bsp_find_bottommost_leaf so (Second # p))"

text \<open>The four walks of lines 337-404. \<^verbatim>\<open>current->parent\<close> is \<^verbatim>\<open>NULL\<close> exactly at the
  empty position; otherwise \<open>current\<close> sits in slot \<open>d\<close> of the node at \<open>up\<close>, and the
  pointer test \<^verbatim>\<open>parent->second == current\<close> is \<open>d = Second\<close>. A position that is not
  in the tree denotes no node; the walk answers \<open>None\<close> there.\<close>

fun bsp_find_left_neighbor :: "BSPNode \<Rightarrow> pos \<Rightarrow> pos option" where
  "bsp_find_left_neighbor rt [] = None"
| "bsp_find_left_neighbor rt (d # up) =
     (case deref rt up of
        None \<Rightarrow> None
      | Some parent \<Rightarrow>
          if split_vertical parent \<and> d = Second
          then bsp_find_rightmost_leaf (first parent) (First # up)
          else bsp_find_left_neighbor rt up)"

fun bsp_find_right_neighbor :: "BSPNode \<Rightarrow> pos \<Rightarrow> pos option" where
  "bsp_find_right_neighbor rt [] = None"
| "bsp_find_right_neighbor rt (d # up) =
     (case deref rt up of
        None \<Rightarrow> None
      | Some parent \<Rightarrow>
          if split_vertical parent \<and> d = First
          then bsp_find_leftmost_leaf (second parent) (Second # up)
          else bsp_find_right_neighbor rt up)"

fun bsp_find_up_neighbor :: "BSPNode \<Rightarrow> pos \<Rightarrow> pos option" where
  "bsp_find_up_neighbor rt [] = None"
| "bsp_find_up_neighbor rt (d # up) =
     (case deref rt up of
        None \<Rightarrow> None
      | Some parent \<Rightarrow>
          if \<not> split_vertical parent \<and> d = Second
          then bsp_find_bottommost_leaf (first parent) (First # up)
          else bsp_find_up_neighbor rt up)"

fun bsp_find_down_neighbor :: "BSPNode \<Rightarrow> pos \<Rightarrow> pos option" where
  "bsp_find_down_neighbor rt [] = None"
| "bsp_find_down_neighbor rt (d # up) =
     (case deref rt up of
        None \<Rightarrow> None
      | Some parent \<Rightarrow>
          if \<not> split_vertical parent \<and> d = First
          then bsp_find_topmost_leaf (second parent) (Second # up)
          else bsp_find_down_neighbor rt up)"

text \<open>\<^verbatim>\<open>bsp_find_neighbor\<close>, lines 314-332. Both arguments may be \<^verbatim>\<open>NULL\<close>. The switch
  reads \<^verbatim>\<open>direction[0]\<close> only, which for the empty string is the terminator.\<close>

definition bsp_find_neighbor :: "BSPNode \<Rightarrow> pos option \<Rightarrow> string option \<Rightarrow> pos option" where
  "bsp_find_neighbor rt node direction =
     (case (node, direction) of
        (Some p, Some dir) \<Rightarrow>
          (case dir of
             [] \<Rightarrow> None
           | c # _ \<Rightarrow>
               if c = CHR ''l'' then bsp_find_left_neighbor rt p
               else if c = CHR ''r'' then bsp_find_right_neighbor rt p
               else if c = CHR ''u'' then bsp_find_up_neighbor rt p
               else if c = CHR ''d'' then bsp_find_down_neighbor rt p
               else None)
      | _ \<Rightarrow> None)"

subsection \<open>Sequences of operations\<close>

text \<open>The mutating entry points of bsp.h. The window manager calls \<^verbatim>\<open>bsp_insert\<close> and
  \<^verbatim>\<open>bsp_remove_window\<close> on the root of a workspace (window_manager.c lines 63, 335, 431);
  \<^verbatim>\<open>bsp_split_leaf\<close> and \<^verbatim>\<open>bsp_collapse_empty_branches\<close> may be called on any node,
  given by its path from the root. An insert and a split carry the outcome of their two
  allocations.\<close>

datatype bsp_op =
    Insert int bool bool
  | Remove int
  | Split path int bool bool
  | Collapse path

text \<open>Calling \<open>f\<close> on the node a path leads to. All four functions return at once on a
  \<^verbatim>\<open>NULL\<close> pointer, so a path that ends at \<^verbatim>\<open>NULL\<close> changes nothing.\<close>

fun apply_at :: "(BSPNode \<Rightarrow> BSPNode option) \<Rightarrow> path \<Rightarrow> BSPNode \<Rightarrow> BSPNode option" where
  "apply_at f [] n = f n"
| "apply_at f (First # p) (BSPNode il wid r sv fo so) =
     (case fo of
        None \<Rightarrow> Some (BSPNode il wid r sv fo so)
      | Some c \<Rightarrow> map_option (\<lambda>c'. BSPNode il wid r sv (Some c') so) (apply_at f p c))"
| "apply_at f (Second # p) (BSPNode il wid r sv fo so) =
     (case so of
        None \<Rightarrow> Some (BSPNode il wid r sv fo so)
      | Some c \<Rightarrow> map_option (\<lambda>c'. BSPNode il wid r sv fo (Some c')) (apply_at f p c))"

fun apply_op :: "bsp_op \<Rightarrow> BSPNode \<Rightarrow> BSPNode option" where
  "apply_op (Insert w alloc1 alloc2) t = Some (bsp_insert alloc1 alloc2 t w)"
| "apply_op (Remove w) t = map_option snd (bsp_remove_window t w)"
| "apply_op (Split p w alloc1 alloc2) t =
     apply_at (\<lambda>n. Some (bsp_split_leaf alloc1 alloc2 n w)) p t"
| "apply_op (Collapse p) t = apply_at bsp_collapse_empty_branches p t"

fun run :: "bsp_op list \<Rightarrow> BSPNode \<Rightarrow> BSPNode option" where
  "run [] t = Some t"
| "run (x # xs) t = (case apply_op x t of None \<Rightarrow> None | Some t' \<Rightarrow> run xs t')"

fun allocs_succeed :: "bsp_op \<Rightarrow> bool" where
  "allocs_succeed (Insert w alloc1 alloc2) = (alloc1 \<and> alloc2)"
| "allocs_succeed (Remove w) = True"
| "allocs_succeed (Split p w alloc1 alloc2) = (alloc1 \<and> alloc2)"
| "allocs_succeed (Collapse p) = True"

subsection \<open>Well-formed trees\<close>

text \<open>A leaf has no children and an internal node has both: the shape of every tree that
  creation, and split with successful allocations, build.\<close>

fun proper :: "BSPNode \<Rightarrow> bool" where
  "proper (BSPNode il wid r sv fo so) =
     (if il then fo = None \<and> so = None
      else (case (fo, so) of
              (Some f, Some s) \<Rightarrow> proper f \<and> proper s
            | _ \<Rightarrow> False))"

subsection \<open>An example display\<close>

definition display_800x600 :: CGRect where
  "display_800x600 = \<lparr>origin_x = Finite 0, origin_y = Finite 0,
     size_width = Finite 800, size_height = Finite 600\<rparr>"

text \<open>The trees after inserting windows 1000 and 1001, after inserting 1002 as well, and
  after then removing 1001 (computed from the operations in \<open>two_windows_built\<close>,
  \<open>three_windows_built\<close> and \<open>after_removal_built\<close> below).\<close>

definition two_windows :: BSPNode where
  "two_windows =
     BSPNode False (- 1) display_800x600 True
       (Some (BSPNode True 1000
          \<lparr>origin_x = Finite 0, origin_y = Finite 0,
             size_width = Finite 400, size_height = Finite 600\<rparr>
          False None None))
       (Some (BSPNode True 1001
          \<lparr>origin_x = Finite 400, origin_y = Finite 0,
             size_width = Finite 400, size_height = Finite 600\<rparr>
          False None None))"

definition three_windows :: BSPNode where
  "three_windows =
     BSPNode False (- 1) display_800x600 True
       (Some (BSPNode False (- 1)
          \<lparr>origin_x = Finite 0, origin_y = Finite 0,
             size_width = Finite 400, size_height = Finite 600\<rparr> False
          (Some (BSPNode True 1000
             \<lparr>origin_x = Finite 0, origin_y = Finite 0,
                size_width = Finite 400, size_height = Finite 300\<rparr>
             False None None))
          (Some (BSPNode True 1002
             \<lparr>origin_x = Finite 0, origin_y = Finite 300,
                size_width = Finite 400, size_height = Finite 300\<rparr>
             False None None))))
       (Some (BSPNode True 1001
          \<lparr>origin_x = Finite 400, origin_y = Finite 0,
             size_width = Finite 400, size_height = Finite 600\<rparr>
          False None None))"

definition after_removal :: BSPNode where
  "after_removal =
     BSPNode False (- 1) display_800x600 False
       (Some (BSPNode True 1000
          \<lparr>origin_x = Finite 0, origin_y = Finite 0,
             size_width = Finite 400, size_height = Finite 300\<rparr>
          False None None))
       (Some (BSPNode True 1002
          \<lparr>origin_x = Finite 0, origin_y = Finite 300,
             size_width = Finite 400, size_height = Finite 300\<rparr>
          False None None))"

subsection \<open>What an insert is measured by\<close>

text \<open>The \<^verbatim>\<open>window_id\<close> fields of the leaves in visiting order, empty leaves included.\<close>

definition leaf_ids :: "BSPNode \<Rightarrow> int list" where
  "leaf_ids t = map window_id (bsp_traverse (Some t))"

text \<open>The shape of a tree: where its leaves and its internal nodes are.\<close>

datatype shape = NullShape | LeafShape | SplitShape shape shape

fun shape_of :: "BSPNode option \<Rightarrow> shape" where
  "shape_of None = NullShape"
| "shape_of (Some (BSPNode il wid r sv fo so)) =
     (if il then LeafShape else SplitShape (shape_of fo) (shape_of so))"

text \<open>The leaf that the descent of \<^verbatim>\<open>bsp_insert\<close> reaches (lines 177 and 191): the node
  itself when it is a leaf, otherwise the one reached from its first child.\<close>

fun insert_target :: "BSPNode \<Rightarrow> BSPNode option" where
  "insert_target (BSPNode il wid r sv fo so) =
     (if il then Some (BSPNode il wid r sv fo so)
      else (case fo of None \<Rightarrow> None | Some f \<Rightarrow> insert_target f))"

subsection \<open>Fresh identifiers\<close>

text \<open>An insert or a split is fresh when the identifier it brings is held by no leaf of the
  tree it is applied to; a sequence is fresh when each of its operations is, on the tree
  the operations before it have built. The window manager inserts only identifiers that
  \<^verbatim>\<open>generate_window_id\<close> has just produced (window_control.c line 360).\<close>

fun fresh_op :: "bsp_op \<Rightarrow> BSPNode \<Rightarrow> bool" where
  "fresh_op (Insert w alloc1 alloc2) t = (w \<notin> set (windows t))"
| "fresh_op (Remove w) t = True"
| "fresh_op (Split p w alloc1 alloc2) t = (w \<notin> set (windows t))"
| "fresh_op (Collapse p) t = True"

fun fresh_run :: "bsp_op list \<Rightarrow> BSPNode \<Rightarrow> bool" where
  "fresh_run [] t = True"
| "fresh_run (x # xs) t =
     (fresh_op x t \<and> (case apply_op x t of None \<Rightarrow> True | Some t' \<Rightarrow> fresh_run xs t'))"

text \<open>The tree after inserting window 1000 twice.\<close>

definition inserted_twice :: BSPNode where
  "inserted_twice =
     BSPNode False (- 1) display_800x600 True
       (Some (BSPNode True 1000
          \<lparr>origin_x = Finite 0, origin_y = Finite 0,
             size_width = Finite 400, size_height = Finite 600\<rparr>
          False None None))
       (Some (BSPNode True 1000
          \<lparr>origin_x = Finite 400, origin_y = Finite 0,
             size_width = Finite 400, size_height = Finite 600\<rparr>
          False None None))"

subsection \<open>Trees without empty leaves\<close>

text \<open>Every leaf holds a window and has the zeroed \<^verbatim>\<open>split_vertical\<close> of its allocation,
  and the tree is well-formed.\<close>

fun occupied :: "BSPNode \<Rightarrow> bool" where
  "occupied (BSPNode il wid r sv fo so) =
     (if il then wid \<noteq> - 1 \<and> \<not> sv \<and> fo = None \<and> so = None
      else (case (fo, so) of
              (Some f, Some s) \<Rightarrow> occupied f \<and> occupied s
            | _ \<Rightarrow> False))"

subsection \<open>The tiling invariant\<close>

text \<open>The four coordinates of a rectangle as real numbers, when all of them are finite.\<close>

definition real_rect :: "CGRect \<Rightarrow> (real \<times> real \<times> real \<times> real) option" where
  "real_rect r =
     (case (origin_x r, origin_y r, size_width r, size_height r) of
        (Finite x, Finite y, Finite w, Finite h) \<Rightarrow> Some (x, y, w, h)
      | _ \<Rightarrow> None)"

text \<open>Two rectangles tile a third along an orientation: for a vertical split they have its
  top edge and its height, the first starts at its left edge, the second starts where
  the first ends, and the widths add up to its width; for a horizontal split the same
  with the axes exchanged. The sums are those of the real numbers.\<close>

definition tiles :: "bool \<Rightarrow> CGRect \<Rightarrow> CGRect \<Rightarrow> CGRect \<Rightarrow> bool" where
  "tiles sv r r1 r2 =
     (case (real_rect r, real_rect r1, real_rect r2) of
        (Some (x, y, w, h), Some (x1, y1, w1, h1), Some (x2, y2, w2, h2)) \<Rightarrow>
          (if sv then
             x1 = x \<and> y1 = y \<and> h1 = h \<and>
             x2 = x1 + w1 \<and> y2 = y \<and> h2 = h \<and>
             w1 + w2 = w
           else
             x1 = x \<and> y1 = y \<and> w1 = w \<and>
             y2 = y1 + h1 \<and> x2 = x \<and> w2 = w \<and>
             h1 + h2 = h)
      | _ \<Rightarrow> False)"

text \<open>The invariant of the specification: every leaf has positive width and height, and
  the children of every internal node tile the node's rectangle along its orientation.\<close>

fun tiling :: "BSPNode \<Rightarrow> bool" where
  "tiling (BSPNode il wid r sv fo so) =
     (if il then
        (case real_rect r of Some (x, y, w, h) \<Rightarrow> 0 < w \<and> 0 < h | None \<Rightarrow> False)
      else (case (fo, so) of
              (Some f, Some s) \<Rightarrow> tiles sv r (rect f) (rect s) \<and> tiling f \<and> tiling s
            | _ \<Rightarrow> False))"

section \<open>Properties\<close>

subsection \<open>Rounding to double\<close>

text \<open>A number \<open>m * 2^k\<close> with \<open>\<bar>m\<bar> < 2^53\<close>, \<open>k \<ge> -1074\<close> and magnitude below \<open>2^1024\<close> is a
  double, and rounding leaves it as it is; so the quotient by 2 and the sum are exact
  whenever their exact value is such a number.\<close>

lemma pow2_less_iff: "power_int (2::real) m < power_int 2 n \<longleftrightarrow> m < n"
proof
  assume l: "power_int (2::real) m < power_int 2 n"
  show "m < n"
  proof (rule ccontr)
    assume "\<not> m < n"
    then have "n \<le> m" by simp
    then have "power_int (2::real) n \<le> power_int 2 m" by (rule power_int_increasing) simp
    with l show False by simp
  qed
next
  assume "m < n"
  then show "power_int (2::real) m < power_int 2 n" by (rule power_int_strict_increasing) simp
qed

lemma pow2_le_iff: "power_int (2::real) m \<le> power_int 2 n \<longleftrightarrow> m \<le> n"
  using pow2_less_iff [of n m] by (auto simp: not_less [symmetric])

lemma round_half_even_int [simp]: "round_half_even (of_int n) = n"
  by (simp add: round_half_even_def)

lemma ulp_search_lower: "- 1074 \<le> ulp_search n a"
  by (induction n) auto

lemma ulp_search_upper: "ulp_search n a \<le> int n - 1074"
  by (induction n) auto

lemma ulp_search_threshold:
  "ulp_search n a = - 1074 \<or> power_int 2 (ulp_search n a + 52) \<le> a"
  by (induction n) (auto simp: algebra_simps)

lemma ulp_search_eq:
  "- 1074 < q \<Longrightarrow> q \<le> int n - 1074 \<Longrightarrow> power_int 2 (q + 52) \<le> a \<Longrightarrow>
   a < power_int 2 (q + 53) \<Longrightarrow> ulp_search n a = q"
proof (induction n)
  case 0
  then show ?case by simp
next
  case (Suc n)
  show ?case
  proof (cases "power_int 2 (int (Suc n) - 1022) \<le> a")
    case True
    with Suc.prems(4) have "power_int (2::real) (int (Suc n) - 1022) < power_int 2 (q + 53)"
      by simp
    then have "int (Suc n) - 1022 < q + 53"
      by (simp only: pow2_less_iff)
    with Suc.prems(2) True show ?thesis by simp
  next
    case False
    with Suc.prems(3) have "power_int (2::real) (q + 52) < power_int 2 (int (Suc n) - 1022)"
      by simp
    then have "q + 52 < int (Suc n) - 1022"
      by (simp only: pow2_less_iff)
    then have "q \<le> int n - 1074" by simp
    from Suc.IH [OF Suc.prems(1) this Suc.prems(3,4)] False show ?thesis by simp
  qed
qed

lemma ulp_exponent_le:
  assumes "a < power_int 2 (k + 53)" "- 1074 \<le> k"
  shows "ulp_exponent a \<le> k"
proof -
  from ulp_search_threshold [of 2045 a] show ?thesis
  proof
    assume "ulp_search 2045 a = - 1074"
    with assms(2) show ?thesis by (simp add: ulp_exponent_def)
  next
    assume "power_int 2 (ulp_search 2045 a + 52) \<le> a"
    with assms(1) have "power_int (2::real) (ulp_search 2045 a + 52) < power_int 2 (k + 53)"
      by simp
    then have "ulp_search 2045 a + 52 < k + 53" by (simp only: pow2_less_iff)
    then show ?thesis by (simp add: ulp_exponent_def)
  qed
qed

lemma round_double_exact:
  assumes x: "x = of_int m * power_int 2 k"
    and m: "\<bar>m\<bar> < 2 ^ 53" and k: "- 1074 \<le> k" and fin: "\<bar>x\<bar> < 2 ^ 1024"
  shows "round_double x = Finite x"
proof -
  define a where "a = \<bar>x\<bar>"
  define q where "q = ulp_exponent a"
  have a: "a = of_int \<bar>m\<bar> * power_int 2 k"
    unfolding a_def x by (simp add: abs_mult)
  have "of_int \<bar>m\<bar> < (2::real) ^ 53" using m by (metis of_int_less_iff of_int_numeral of_int_power)
  then have "a < 2 ^ 53 * power_int 2 k"
    unfolding a by (simp add: mult_strict_right_mono)
  also have "\<dots> = power_int 2 (k + 53)" by (simp add: power_int_add)
  finally have "q \<le> k" unfolding q_def using k by (rule ulp_exponent_le)
  then obtain d where d: "k = q + int d" by (metis zle_iff_zadd)
  have "a / power_int 2 q = of_int \<bar>m\<bar> * 2 ^ d"
    unfolding a d by (simp add: power_int_add)
  also have "\<dots> = of_int (\<bar>m\<bar> * 2 ^ d)" by simp
  finally have r: "round_half_even (a / power_int 2 q) = \<bar>m\<bar> * 2 ^ d"
    by (simp only: round_half_even_int)
  have y: "of_int (round_half_even (a / power_int 2 q)) * power_int 2 q = a"
    unfolding r unfolding a d by (simp add: power_int_add)
  show ?thesis
    unfolding round_double_def Let_def a_def [symmetric] q_def [symmetric] y
    using fin by (auto simp: a_def)
qed

lemma ulp_search_min: "a < power_int 2 (- 1021) \<Longrightarrow> ulp_search n a = - 1074"
proof (induction n)
  case 0
  show ?case by simp
next
  case (Suc n)
  have "- 1021 \<le> int (Suc n) - 1022" by simp
  then have "power_int (2::real) (- 1021) \<le> power_int 2 (int (Suc n) - 1022)"
    by (simp only: pow2_le_iff)
  with Suc.prems have "\<not> power_int 2 (int (Suc n) - 1022) \<le> a" by simp
  with Suc show ?case by simp
qed

lemma round_double_zero [simp]: "round_double 0 = Finite 0"
  using round_double_exact [of 0 0 0] by simp

lemma round_double_one [simp]: "round_double 1 = Finite 1"
  using round_double_exact [of 1 1 0] by simp

lemma round_double_numeral [simp]:
  "numeral n < (2::int) ^ 53 \<Longrightarrow> round_double (numeral n) = Finite (numeral n)"
proof -
  assume n: "numeral n < (2::int) ^ 53"
  have 1: "(numeral n :: real) = of_int (numeral n) * power_int 2 0" by simp
  have 2: "\<bar>numeral n :: int\<bar> < 2 ^ 53" using n by simp
  from n have "real_of_int (numeral n) < real_of_int (2 ^ 53)" by (simp only: of_int_less_iff)
  then have "(numeral n :: real) < 2 ^ 53" by simp
  also have "\<dots> < (2::real) ^ 1024" by simp
  finally have 3: "\<bar>numeral n :: real\<bar> < 2 ^ 1024" by simp
  have 4: "- 1074 \<le> (0::int)" by simp
  from round_double_exact [OF 1 2 4 3] show ?thesis .
qed

lemma div2_exact:
  assumes "x = of_int m * power_int 2 k" "\<bar>m\<bar> < 2 ^ 53" "- 1073 \<le> k" "\<bar>x\<bar> < 2 ^ 1024"
  shows "cgfloat_div2 (Finite x) = Finite (x / 2)"
proof -
  have "x / 2 = of_int m * power_int 2 (k - 1)"
    unfolding assms(1) by (simp add: power_int_diff)
  from round_double_exact [OF this assms(2)] assms(3,4) show ?thesis by simp
qed

lemma add_exact:
  assumes "x + y = of_int m * power_int 2 k" "\<bar>m\<bar> < 2 ^ 53" "- 1074 \<le> k"
    "\<bar>x + y\<bar> < 2 ^ 1024"
  shows "cgfloat_add (Finite x) (Finite y) = Finite (x + y)"
  using round_double_exact [OF assms] by simp

lemma div2_smallest: "cgfloat_div2 (Finite (1 / 2 ^ 1074)) = Finite 0"
proof -
  have "\<bar>1 / 2 ^ 1075 :: real\<bar> < power_int 2 (- 1021)"
    by (simp add: power_int_minus_divide)
  then have q: "ulp_exponent \<bar>1 / 2 ^ 1075\<bar> = - 1074"
    unfolding ulp_exponent_def by (rule ulp_search_min)
  have r: "round_half_even (1 / 2) = 0" by (simp add: round_half_even_def)
  have "round_double (1 / 2 ^ 1075) = Finite 0"
    unfolding round_double_def Let_def q by (simp add: power_int_minus_divide r)
  then show ?thesis by simp
qed

lemma add_tie_to_even:
  "cgfloat_add (Finite 9007199254740992) (Finite 1) = Finite 9007199254740992"
proof -
  have q: "ulp_exponent \<bar>9007199254740993\<bar> = 1"
    unfolding ulp_exponent_def by (rule ulp_search_eq) simp_all
  have r: "round_half_even (9007199254740993 / 2) = 4503599627370496"
    by (simp add: round_half_even_def)
  have "round_double 9007199254740993 = Finite 9007199254740992"
    unfolding round_double_def Let_def q by (simp add: r)
  then show ?thesis by simp
qed

subsection \<open>Well-formedness is kept, and no operation crashes on a well-formed tree\<close>

lemma proper_iff:
  "proper (BSPNode il wid r sv fo so) =
     (if il then fo = None \<and> so = None
      else (\<exists>f s. fo = Some f \<and> so = Some s \<and> proper f \<and> proper s))"
  by (simp split: option.splits)

declare proper.simps [simp del]
declare proper_iff [simp]

lemma proper_split_leaf: "proper n \<Longrightarrow> proper (bsp_split_leaf True True n w)"
  by (cases n) (auto simp: bsp_split_leaf_def Let_def split: option.splits)

lemma proper_insert: "proper n \<Longrightarrow> proper (bsp_insert True True n w)"
proof (induction n)
  case (BSPNode il wid r sv fo so)
  show ?case
  proof (cases il)
    case True
    with BSPNode.prems show ?thesis
      by (simp add: bsp_split_leaf_def Let_def)
  next
    case False
    with BSPNode.prems BSPNode.IH(1) show ?thesis
      by (auto split: option.splits)
  qed
qed

lemma proper_collapse:
  assumes "proper n"
  shows "\<exists>n'. bsp_collapse_empty_branches n = Some n' \<and> proper n'"
proof (cases "is_leaf n")
  case True
  with assms show ?thesis by (simp add: bsp_collapse_empty_branches_def)
next
  case False
  with assms obtain f s where
    fs: "first n = Some f" "second n = Some s" "proper f" "proper s"
    by (cases n) auto
  from fs(3,4) show ?thesis
    using False fs(1,2) assms
    by (cases f; cases s) (auto simp: bsp_collapse_empty_branches_def Let_def)
qed

lemma proper_children:
  "proper n \<Longrightarrow> \<not> is_leaf n \<Longrightarrow> \<exists>f s. first n = Some f \<and> second n = Some s \<and> proper f \<and> proper s"
  by (cases n) (auto split: option.splits)

lemma remove_internal:
  "bsp_remove_window (BSPNode False wid r sv (Some f) (Some s)) w =
     (case bsp_remove_window f w of
        None \<Rightarrow> None
      | Some (True, f') \<Rightarrow>
          map_option (Pair True)
            (bsp_collapse_empty_branches (BSPNode False wid r sv (Some f') (Some s)))
      | Some (False, f') \<Rightarrow>
          (case bsp_remove_window s w of
             None \<Rightarrow> None
           | Some (True, s') \<Rightarrow>
               map_option (Pair True)
                 (bsp_collapse_empty_branches (BSPNode False wid r sv (Some f') (Some s')))
           | Some (False, s') \<Rightarrow> Some (False, BSPNode False wid r sv (Some f') (Some s'))))"
  by (auto split: option.splits bool.splits)

lemma remove_leaf:
  "bsp_remove_window (BSPNode True wid r sv fo so) w =
     (if wid = w then Some (True, BSPNode True (- 1) r sv fo so)
      else Some (False, BSPNode True wid r sv fo so))"
  by simp

lemma proper_remove:
  "proper n \<Longrightarrow> \<exists>b n'. bsp_remove_window n w = Some (b, n') \<and> proper n'"
proof (induction n)
  case (BSPNode il wid r sv fo so)
  show ?case
  proof (cases il)
    case True
    with BSPNode.prems show ?thesis by (auto simp: remove_leaf)
  next
    case False
    then have il: "il = False" by simp
    from BSPNode.prems False obtain f s where fs: "fo = Some f" "so = Some s" "proper f" "proper s"
      by (auto split: option.splits)
    from BSPNode.IH(1) fs obtain b1 f' where f': "bsp_remove_window f w = Some (b1, f')" "proper f'"
      by auto
    from BSPNode.IH(2) fs obtain b2 s' where s': "bsp_remove_window s w = Some (b2, s')" "proper s'"
      by auto
    have p1: "proper (BSPNode False wid r sv (Some f') (Some s))" using f' fs by simp
    have p2: "proper (BSPNode False wid r sv (Some f') (Some s'))" using f' s' by simp
    from proper_collapse[OF p1] proper_collapse[OF p2] p2 show ?thesis
      unfolding fs il remove_internal f' s'
      by (cases b1; cases b2; auto)
  qed
qed

lemma proper_apply_at:
  "proper n \<Longrightarrow> (\<And>m. proper m \<Longrightarrow> \<exists>m'. f m = Some m' \<and> proper m') \<Longrightarrow>
   \<exists>n'. apply_at f p n = Some n' \<and> proper n'"
proof (induction f p n rule: apply_at.induct)
  case (1 f n)
  then show ?case by simp
next
  case (2 f p il wid r sv fo so)
  show ?case
  proof (cases fo)
    case None
    with "2.prems"(1) show ?thesis by simp
  next
    case (Some c)
    with "2.prems"(1) have "proper c" by (auto split: if_splits option.splits)
    from "2.IH"[OF Some this "2.prems"(2)] obtain c' where "apply_at f p c = Some c'" "proper c'"
      by blast
    with Some "2.prems"(1) show ?thesis by (auto split: if_splits option.splits)
  qed
next
  case (3 f p il wid r sv fo so)
  show ?case
  proof (cases so)
    case None
    with "3.prems"(1) show ?thesis by simp
  next
    case (Some c)
    with "3.prems"(1) have "proper c" by (auto split: if_splits option.splits)
    from "3.IH"[OF Some this "3.prems"(2)] obtain c' where "apply_at f p c = Some c'" "proper c'"
      by blast
    with Some "3.prems"(1) show ?thesis by (auto split: if_splits option.splits)
  qed
qed

lemma proper_apply_op:
  assumes "proper t" "allocs_succeed x"
  shows "\<exists>t'. apply_op x t = Some t' \<and> proper t'"
proof (cases x)
  case (Insert w a1 a2)
  with assms show ?thesis by (simp add: proper_insert)
next
  case (Remove w)
  with proper_remove[OF assms(1), of w] show ?thesis by auto
next
  case (Split p w a1 a2)
  with assms proper_apply_at[OF assms(1), of "\<lambda>n. Some (bsp_split_leaf True True n w)" p]
  show ?thesis by (simp add: proper_split_leaf)
next
  case (Collapse p)
  with proper_apply_at[OF assms(1), of bsp_collapse_empty_branches p] proper_collapse
  show ?thesis by simp
qed

lemma proper_run:
  "proper t \<Longrightarrow> list_all allocs_succeed xs \<Longrightarrow> \<exists>t'. run xs t = Some t' \<and> proper t'"
proof (induction xs arbitrary: t)
  case Nil
  then show ?case by simp
next
  case (Cons x xs)
  from proper_apply_op[of t x] Cons.prems obtain t1 where t1: "apply_op x t = Some t1" "proper t1"
    by auto
  from Cons.IH[OF t1(2)] Cons.prems(2) t1(1) show ?case by simp
qed

lemma proper_create_root: "proper (bsp_create_root r)"
  by (simp add: bsp_create_root_def)

subsection \<open>No operation writes the rectangle of the node it is called on\<close>

lemma rect_split_leaf: "rect (bsp_split_leaf a1 a2 n w) = rect n"
  by (simp add: bsp_split_leaf_def Let_def)

lemma rect_insert: "rect (bsp_insert a1 a2 n w) = rect n"
  by (cases n) (simp add: rect_split_leaf split: option.splits)

lemma rect_collapse: "bsp_collapse_empty_branches n = Some n' \<Longrightarrow> rect n' = rect n"
  by (auto simp: bsp_collapse_empty_branches_def Let_def split: if_splits option.splits)

lemma rect_remove: "bsp_remove_window n w = Some (b, n') \<Longrightarrow> rect n' = rect n"
  by (cases n) (auto split: if_splits option.splits bool.splits dest!: rect_collapse)

lemma rect_apply_at:
  "apply_at f p n = Some n' \<Longrightarrow> (\<And>m m'. f m = Some m' \<Longrightarrow> rect m' = rect m) \<Longrightarrow>
   rect n' = rect n"
  by (induction f p n rule: apply_at.induct) (auto split: option.splits)

lemma rect_apply_op: "apply_op x t = Some t' \<Longrightarrow> rect t' = rect t"
proof (cases x)
  case (Insert w a1 a2)
  then show "apply_op x t = Some t' \<Longrightarrow> rect t' = rect t"
    by (auto simp: rect_insert)
next
  case (Remove w)
  then show "apply_op x t = Some t' \<Longrightarrow> rect t' = rect t"
    by (auto dest: rect_remove)
next
  case (Split p w a1 a2)
  then show "apply_op x t = Some t' \<Longrightarrow> rect t' = rect t"
    by (auto elim!: rect_apply_at simp: rect_split_leaf)
next
  case (Collapse p)
  then show "apply_op x t = Some t' \<Longrightarrow> rect t' = rect t"
    by (auto elim!: rect_apply_at dest: rect_collapse)
qed

lemma rect_run: "run xs t = Some t' \<Longrightarrow> rect t' = rect t"
  by (induction xs arbitrary: t) (auto split: option.splits dest: rect_apply_op)

lemma remove_absent: "holders t w = 0 \<Longrightarrow> bsp_remove_window t w = Some (False, t)"
proof (induction t)
  case (BSPNode il wid r sv fo so)
  show ?case
  proof (cases il)
    case True
    with BSPNode.prems show ?thesis by (simp add: holders_def split: if_splits)
  next
    case False
    have f: "\<And>f. fo = Some f \<Longrightarrow> bsp_remove_window f w = Some (False, f)"
      using BSPNode.IH(1) BSPNode.prems False by (simp add: holders_def)
    have s: "\<And>s. so = Some s \<Longrightarrow> bsp_remove_window s w = Some (False, s)"
      using BSPNode.IH(2) BSPNode.prems False by (simp add: holders_def)
    show ?thesis using False f s by (simp split: option.splits)
  qed
qed

subsection \<open>Split\<close>

text \<open>
  Claim C5, as stated: every leaf is split into halves that are exactly half of it along
  the chosen axis, side by side or stacked. The orientation is chosen as stated, but the
  halves are computed in \<^verbatim>\<open>double\<close>. A leaf whose height is the smallest positive double,
  \<open>2^-1074\<close>, gets children of height 0, because the quotient underflows; and a leaf 2 wide
  at \<open>x = 2^53\<close> gets a second child that starts at \<open>2^53\<close> as the first does, because the
  sum \<open>2^53 + 1\<close> is a tie that rounds to even.
\<close>

theorem split_leaf_rounding_counterexample:
  "bsp_split_leaf True True
     (BSPNode True 1000
        \<lparr>origin_x = Finite 0, origin_y = Finite 0,
           size_width = Finite (1 / 2 ^ 1074), size_height = Finite (1 / 2 ^ 1074)\<rparr>
        False None None) 1001 =
     BSPNode False (- 1)
       \<lparr>origin_x = Finite 0, origin_y = Finite 0,
          size_width = Finite (1 / 2 ^ 1074), size_height = Finite (1 / 2 ^ 1074)\<rparr> False
       (Some (BSPNode True 1000
          \<lparr>origin_x = Finite 0, origin_y = Finite 0,
             size_width = Finite (1 / 2 ^ 1074), size_height = Finite 0\<rparr>
          False None None))
       (Some (BSPNode True 1001
          \<lparr>origin_x = Finite 0, origin_y = Finite 0,
             size_width = Finite (1 / 2 ^ 1074), size_height = Finite 0\<rparr>
          False None None)) \<and>
   (0::real) \<noteq> (1 / 2 ^ 1074) / 2 \<and>
   bsp_split_leaf True True
     (BSPNode True 1000
        \<lparr>origin_x = Finite 9007199254740992, origin_y = Finite 0,
           size_width = Finite 2, size_height = Finite 1\<rparr>
        False None None) 1001 =
     BSPNode False (- 1)
       \<lparr>origin_x = Finite 9007199254740992, origin_y = Finite 0,
          size_width = Finite 2, size_height = Finite 1\<rparr> True
       (Some (BSPNode True 1000
          \<lparr>origin_x = Finite 9007199254740992, origin_y = Finite 0,
             size_width = Finite 1, size_height = Finite 1\<rparr>
          False None None))
       (Some (BSPNode True 1001
          \<lparr>origin_x = Finite 9007199254740992, origin_y = Finite 0,
             size_width = Finite 1, size_height = Finite 1\<rparr>
          False None None)) \<and>
   (9007199254740992::real) \<noteq> 9007199254740992 + 1"
  by (simp add: bsp_split_leaf_def Let_def div2_smallest [simplified]
      add_tie_to_even [simplified])

text \<open>
  Claim C5, amended. A leaf is split vertically exactly when its width compares greater
  than its height, and horizontally otherwise, equal extents included; for finite
  extents the comparison is that of the numbers. The first child keeps the origin and
  the old window, the second child gets the new window. Along the chosen axis each child
  has the \<^verbatim>\<open>double\<close> quotient of the leaf's extent by 2, and the second child starts at the
  \<^verbatim>\<open>double\<close> sum of the leaf's origin and that quotient. The quotient is exactly half of
  an extent \<open>m * 2^k\<close> with \<open>\<bar>m\<bar> < 2^53\<close> and \<open>k \<ge> -1073\<close>, so of every integer below \<open>2^53\<close>;
  the sum is exact when it is a double itself. So a 200 by 100 leaf gives
  two 100 by 100 children, the second one 100 to the right of the first as far as the
  sum is exact (at \<open>x = 0\<close> it is); a 100 by 200 leaf two 100 by 100 children, the second
  one 100 below; and a 100 by 100 leaf two 100 by 50 children stacked.
\<close>

theorem split_leaf_orientation:
  "(is_leaf leaf \<longrightarrow>
      (let r = rect leaf; n = bsp_split_leaf True True leaf w;
           sv = cgfloat_gt (size_width r) (size_height r);
           half_width = cgfloat_div2 (size_width r);
           half_height = cgfloat_div2 (size_height r)
       in \<not> is_leaf n \<and> rect n = r \<and> split_vertical n = sv \<and>
          (\<exists>f s. first n = Some f \<and> second n = Some s \<and>
             is_leaf f \<and> window_id f = window_id leaf \<and>
             is_leaf s \<and> window_id s = w \<and>
             (if sv
              then rect f = r\<lparr>size_width := half_width\<rparr> \<and>
                   rect s = r\<lparr>origin_x := cgfloat_add (origin_x r) half_width,
                               size_width := half_width\<rparr>
              else rect f = r\<lparr>size_height := half_height\<rparr> \<and>
                   rect s = r\<lparr>origin_y := cgfloat_add (origin_y r) half_height,
                               size_height := half_height\<rparr>)))) \<and>
   cgfloat_gt (Finite c) (Finite d) = (d < c) \<and>
   (\<bar>m\<bar> < 2 ^ 53 \<and> - 1073 \<le> k \<and> \<bar>of_int m * power_int 2 k :: real\<bar> < 2 ^ 1024 \<longrightarrow>
      cgfloat_div2 (Finite (of_int m * power_int 2 k)) =
        Finite (of_int m * power_int 2 k / 2)) \<and>
   (x + y = of_int m' * power_int 2 k' \<and> \<bar>m'\<bar> < 2 ^ 53 \<and> - 1074 \<le> k' \<and>
    \<bar>x + y\<bar> < 2 ^ 1024 \<longrightarrow>
      cgfloat_add (Finite x) (Finite y) = Finite (x + y)) \<and>
   bsp_split_leaf True True
     (BSPNode True a
        \<lparr>origin_x = ox, origin_y = oy,
           size_width = Finite 200, size_height = Finite 100\<rparr>
        False None None) b =
     BSPNode False (- 1)
       \<lparr>origin_x = ox, origin_y = oy,
          size_width = Finite 200, size_height = Finite 100\<rparr>
       True
       (Some (BSPNode True a
          \<lparr>origin_x = ox, origin_y = oy,
             size_width = Finite 100, size_height = Finite 100\<rparr>
          False None None))
       (Some (BSPNode True b
          \<lparr>origin_x = cgfloat_add ox (Finite 100), origin_y = oy,
             size_width = Finite 100, size_height = Finite 100\<rparr>
          False None None)) \<and>
   bsp_split_leaf True True
     (BSPNode True a
        \<lparr>origin_x = ox, origin_y = oy,
           size_width = Finite 100, size_height = Finite 200\<rparr>
        False None None) b =
     BSPNode False (- 1)
       \<lparr>origin_x = ox, origin_y = oy,
          size_width = Finite 100, size_height = Finite 200\<rparr>
       False
       (Some (BSPNode True a
          \<lparr>origin_x = ox, origin_y = oy,
             size_width = Finite 100, size_height = Finite 100\<rparr>
          False None None))
       (Some (BSPNode True b
          \<lparr>origin_x = ox, origin_y = cgfloat_add oy (Finite 100),
             size_width = Finite 100, size_height = Finite 100\<rparr>
          False None None)) \<and>
   bsp_split_leaf True True
     (BSPNode True a
        \<lparr>origin_x = ox, origin_y = oy,
           size_width = Finite 100, size_height = Finite 100\<rparr>
        False None None) b =
     BSPNode False (- 1)
       \<lparr>origin_x = ox, origin_y = oy,
          size_width = Finite 100, size_height = Finite 100\<rparr>
       False
       (Some (BSPNode True a
          \<lparr>origin_x = ox, origin_y = oy,
             size_width = Finite 100, size_height = Finite 50\<rparr>
          False None None))
       (Some (BSPNode True b
          \<lparr>origin_x = ox, origin_y = cgfloat_add oy (Finite 50),
             size_width = Finite 100, size_height = Finite 50\<rparr>
          False None None)) \<and>
   cgfloat_add (Finite 0) (Finite 100) = Finite 100 \<and>
   cgfloat_add (Finite 0) (Finite 50) = Finite 50"
proof -
  have general: "is_leaf leaf \<longrightarrow>
      (let r = rect leaf; n = bsp_split_leaf True True leaf w;
           sv = cgfloat_gt (size_width r) (size_height r);
           half_width = cgfloat_div2 (size_width r);
           half_height = cgfloat_div2 (size_height r)
       in \<not> is_leaf n \<and> rect n = r \<and> split_vertical n = sv \<and>
          (\<exists>f s. first n = Some f \<and> second n = Some s \<and>
             is_leaf f \<and> window_id f = window_id leaf \<and>
             is_leaf s \<and> window_id s = w \<and>
             (if sv
              then rect f = r\<lparr>size_width := half_width\<rparr> \<and>
                   rect s = r\<lparr>origin_x := cgfloat_add (origin_x r) half_width,
                               size_width := half_width\<rparr>
              else rect f = r\<lparr>size_height := half_height\<rparr> \<and>
                   rect s = r\<lparr>origin_y := cgfloat_add (origin_y r) half_height,
                               size_height := half_height\<rparr>)))"
    by (simp add: bsp_split_leaf_def Let_def)
  have half: "\<bar>m\<bar> < 2 ^ 53 \<and> - 1073 \<le> k \<and> \<bar>of_int m * power_int 2 k :: real\<bar> < 2 ^ 1024 \<longrightarrow>
      cgfloat_div2 (Finite (of_int m * power_int 2 k)) =
        Finite (of_int m * power_int 2 k / 2)"
    using div2_exact [OF refl, of m k] by blast
  have sum: "x + y = of_int m' * power_int 2 k' \<and> \<bar>m'\<bar> < 2 ^ 53 \<and> - 1074 \<le> k' \<and>
    \<bar>x + y\<bar> < 2 ^ 1024 \<longrightarrow>
      cgfloat_add (Finite x) (Finite y) = Finite (x + y)"
    using add_exact [of x y m' k'] by blast
  have examples:
    "bsp_split_leaf True True
     (BSPNode True a
        \<lparr>origin_x = ox, origin_y = oy,
           size_width = Finite 200, size_height = Finite 100\<rparr>
        False None None) b =
     BSPNode False (- 1)
       \<lparr>origin_x = ox, origin_y = oy,
          size_width = Finite 200, size_height = Finite 100\<rparr>
       True
       (Some (BSPNode True a
          \<lparr>origin_x = ox, origin_y = oy,
             size_width = Finite 100, size_height = Finite 100\<rparr>
          False None None))
       (Some (BSPNode True b
          \<lparr>origin_x = cgfloat_add ox (Finite 100), origin_y = oy,
             size_width = Finite 100, size_height = Finite 100\<rparr>
          False None None))"
    "bsp_split_leaf True True
     (BSPNode True a
        \<lparr>origin_x = ox, origin_y = oy,
           size_width = Finite 100, size_height = Finite 200\<rparr>
        False None None) b =
     BSPNode False (- 1)
       \<lparr>origin_x = ox, origin_y = oy,
          size_width = Finite 100, size_height = Finite 200\<rparr>
       False
       (Some (BSPNode True a
          \<lparr>origin_x = ox, origin_y = oy,
             size_width = Finite 100, size_height = Finite 100\<rparr>
          False None None))
       (Some (BSPNode True b
          \<lparr>origin_x = ox, origin_y = cgfloat_add oy (Finite 100),
             size_width = Finite 100, size_height = Finite 100\<rparr>
          False None None))"
    "bsp_split_leaf True True
     (BSPNode True a
        \<lparr>origin_x = ox, origin_y = oy,
           size_width = Finite 100, size_height = Finite 100\<rparr>
        False None None) b =
     BSPNode False (- 1)
       \<lparr>origin_x = ox, origin_y = oy,
          size_width = Finite 100, size_height = Finite 100\<rparr>
       False
       (Some (BSPNode True a
          \<lparr>origin_x = ox, origin_y = oy,
             size_width = Finite 100, size_height = Finite 50\<rparr>
          False None None))
       (Some (BSPNode True b
          \<lparr>origin_x = ox, origin_y = cgfloat_add oy (Finite 50),
             size_width = Finite 100, size_height = Finite 50\<rparr>
          False None None))"
    "cgfloat_add (Finite 0) (Finite 100) = Finite 100"
    "cgfloat_add (Finite 0) (Finite 50) = Finite 50"
    by (simp_all add: bsp_split_leaf_def Let_def)
  have gt: "cgfloat_gt (Finite c) (Finite d) = (d < c)" by simp
  from general gt half sum examples show ?thesis by (intro conjI)
qed

theorem split_leaf_orientation_witness:
  "is_leaf (BSPNode True 1000 display_800x600 False None None) \<and>
   \<bar>800 :: int\<bar> < 2 ^ 53 \<and> - 1073 \<le> (0 :: int) \<and>
   \<bar>of_int 800 * power_int 2 0 :: real\<bar> < 2 ^ 1024 \<and>
   (0 :: real) + 400 = of_int 400 * power_int 2 0 \<and> \<bar>400 :: int\<bar> < 2 ^ 53 \<and>
   - 1074 \<le> (0 :: int) \<and> \<bar>(0 :: real) + 400\<bar> < 2 ^ 1024 \<and>
   cgfloat_div2 (Finite 800) = Finite 400 \<and>
   cgfloat_add (Finite 0) (Finite 400) = Finite 400 \<and>
   bsp_split_leaf True True (BSPNode True 1000 display_800x600 False None None) 1001 =
     BSPNode False (- 1) display_800x600 True
       (Some (BSPNode True 1000
          \<lparr>origin_x = Finite 0, origin_y = Finite 0,
             size_width = Finite 400, size_height = Finite 600\<rparr>
          False None None))
       (Some (BSPNode True 1001
          \<lparr>origin_x = Finite 400, origin_y = Finite 0,
             size_width = Finite 400, size_height = Finite 600\<rparr>
          False None None))"
proof -
  note t = split_leaf_orientation
    [where leaf = "BSPNode True 1000 display_800x600 False None None" and w = 1001
       and m = 800 and k = 0 and x = 0 and y = 400 and m' = 400 and k' = 0]
  have h: "cgfloat_div2 (Finite 800) = Finite 400"
    "cgfloat_add (Finite 0) (Finite 400) = Finite 400"
    using t by simp_all
  have "bsp_split_leaf True True (BSPNode True 1000 display_800x600 False None None) 1001 =
     BSPNode False (- 1) display_800x600 True
       (Some (BSPNode True 1000
          \<lparr>origin_x = Finite 0, origin_y = Finite 0,
             size_width = Finite 400, size_height = Finite 600\<rparr>
          False None None))
       (Some (BSPNode True 1001
          \<lparr>origin_x = Finite 400, origin_y = Finite 0,
             size_width = Finite 400, size_height = Finite 600\<rparr>
          False None None))"
    using h by (simp add: bsp_split_leaf_def Let_def display_800x600_def)
  with h show ?thesis by simp
qed

text \<open>
  Claim C4. When an allocation of a split fails, the leaf should be left as it was. The
  source clears \<^verbatim>\<open>is_leaf\<close> and sets \<^verbatim>\<open>split_vertical\<close> (lines 118-119) before it
  allocates, and neither early return (lines 140 and 152) restores them: the leaf holding
  window 1000 on the 800 by 600 display is afterwards an internal node without children,
  whichever allocation fails, and a later insert into it does nothing.
\<close>

theorem split_leaf_allocation_failure:
  "bsp_split_leaf False True (BSPNode True 1000 display_800x600 False None None) 1001 =
     BSPNode False 1000 display_800x600 True None None \<and>
   bsp_split_leaf True False (BSPNode True 1000 display_800x600 False None None) 1001 =
     BSPNode False 1000 display_800x600 True None None \<and>
   bsp_insert True True
     (bsp_split_leaf True False (BSPNode True 1000 display_800x600 False None None) 1001) 1002 =
     BSPNode False 1000 display_800x600 True None None"
  by (simp add: bsp_split_leaf_def Let_def display_800x600_def)

subsection \<open>The example trees\<close>

lemma two_windows_built:
  "run [Insert 1000 True True, Insert 1001 True True] (bsp_create_root display_800x600) =
     Some two_windows"
  by (simp add: bsp_create_root_def bsp_split_leaf_def Let_def display_800x600_def
      two_windows_def)

lemma three_windows_built:
  "run [Insert 1000 True True, Insert 1001 True True, Insert 1002 True True]
     (bsp_create_root display_800x600) = Some three_windows"
  by (simp add: bsp_create_root_def bsp_split_leaf_def Let_def display_800x600_def
      three_windows_def)

lemma after_removal_built: "bsp_remove_window three_windows 1001 = Some (True, after_removal)"
  by (simp add: three_windows_def after_removal_def bsp_collapse_empty_branches_def)

subsection \<open>Remove\<close>

text \<open>
  Claim C9. When no leaf of the tree holds the window identifier, \<^verbatim>\<open>bsp_remove_window\<close>
  returns false and the tree afterwards is the tree before, field for field. This holds
  for every node value, also one whose children are \<^verbatim>\<open>NULL\<close>.
\<close>

theorem remove_absent_window:
  "holders t w = 0 \<Longrightarrow> bsp_remove_window t w = Some (False, t)"
  by (rule remove_absent)

theorem remove_absent_window_witness:
  "holders two_windows 1002 = 0 \<and>
   bsp_remove_window two_windows 1002 = Some (False, two_windows)"
  using remove_absent_window [of two_windows 1002]
  by (simp add: holders_def two_windows_def)

subsection \<open>The rectangle of the root\<close>

text \<open>
  Claim C10. After any sequence of inserts, removes, splits and collapses on a tree made
  by \<^verbatim>\<open>bsp_create_root\<close>, whatever the allocations do, the rectangle of the root is the
  rectangle the root was created with; when the allocations succeed the sequence runs to
  its end. Each of the four functions leaves the rectangle of the node it is called on as
  it was; collapse in particular keeps the node's own rectangle.
\<close>

theorem root_rect_unchanged:
  "(run ops (bsp_create_root r) = Some t \<longrightarrow> rect t = r) \<and>
   (list_all allocs_succeed ops \<longrightarrow> (\<exists>t'. run ops (bsp_create_root r) = Some t' \<and> rect t' = r)) \<and>
   rect (bsp_insert alloc1 alloc2 n w) = rect n \<and>
   rect (bsp_split_leaf alloc1 alloc2 n w) = rect n \<and>
   (bsp_remove_window n w = Some (b, n') \<longrightarrow> rect n' = rect n) \<and>
   (bsp_collapse_empty_branches n = Some n'' \<longrightarrow> rect n'' = rect n)"
proof -
  have a: "run ops (bsp_create_root r) = Some t \<longrightarrow> rect t = r"
    using rect_run [of ops "bsp_create_root r" t] by (simp add: bsp_create_root_def)
  have b: "list_all allocs_succeed ops \<longrightarrow>
           (\<exists>t'. run ops (bsp_create_root r) = Some t' \<and> rect t' = r)"
  proof
    assume "list_all allocs_succeed ops"
    with proper_run [OF proper_create_root] obtain t' where
      t': "run ops (bsp_create_root r) = Some t'" by blast
    with rect_run [OF t'] show "\<exists>t'. run ops (bsp_create_root r) = Some t' \<and> rect t' = r"
      by (simp add: bsp_create_root_def)
  qed
  from a b show ?thesis
    using rect_insert rect_split_leaf rect_remove rect_collapse by blast
qed

theorem root_rect_unchanged_witness:
  "run [Insert 1000 True True, Insert 1001 True True, Insert 1002 True True, Remove 1001]
     (bsp_create_root display_800x600) = Some after_removal \<and>
   rect after_removal = display_800x600 \<and>
   list_all allocs_succeed
     [Insert 1000 True True, Insert 1001 True True, Insert 1002 True True, Remove 1001] \<and>
   bsp_remove_window three_windows 1001 = Some (True, after_removal) \<and>
   bsp_collapse_empty_branches three_windows = Some three_windows \<and>
   rect three_windows = display_800x600"
  using root_rect_unchanged
    [of "[Insert 1000 True True, Insert 1001 True True, Insert 1002 True True, Remove 1001]"
        display_800x600 after_removal True True three_windows 1001 True after_removal
        three_windows]
  by (simp add: bsp_create_root_def bsp_split_leaf_def Let_def display_800x600_def
      three_windows_def after_removal_def bsp_collapse_empty_branches_def)

subsection \<open>Neighbour search by direction\<close>

text \<open>
  Claim C8, as stated: every direction string other than the four tokens left, right, up
  and down gives no neighbour. It fails: \<^verbatim>\<open>bsp_find_neighbor\<close> reads the first
  character only, so the string "l" is taken for left, and the right-hand window of the
  two-window tree gets its left neighbour.
\<close>

theorem find_neighbor_first_letter_counterexample:
  "''l'' \<notin> {''left'', ''right'', ''up'', ''down''} \<and>
   bsp_find_neighbor two_windows (Some [Second]) (Some ''l'') = Some [First]"
  by (simp add: bsp_find_neighbor_def deref_def two_windows_def)

text \<open>
  Claim C8, amended. A direction string that is empty or whose first character is none of
  l, r, u, d gives no neighbour, for every node and every tree, and so does a \<^verbatim>\<open>NULL\<close>
  direction; a string that begins with one of the four letters is searched as the
  direction with that initial, whatever follows. The search returns a node and writes
  nothing: its model has no tree among its results.
\<close>

theorem find_neighbor_invalid_direction:
  "((case dir of [] \<Rightarrow> True
     | c # cs \<Rightarrow> c \<noteq> CHR ''l'' \<and> c \<noteq> CHR ''r'' \<and> c \<noteq> CHR ''u'' \<and> c \<noteq> CHR ''d'') \<longrightarrow>
      bsp_find_neighbor rt node (Some dir) = None) \<and>
   bsp_find_neighbor rt node None = None \<and>
   bsp_find_neighbor rt (Some p) (Some (CHR ''l'' # cs)) = bsp_find_left_neighbor rt p \<and>
   bsp_find_neighbor rt (Some p) (Some (CHR ''r'' # cs)) = bsp_find_right_neighbor rt p \<and>
   bsp_find_neighbor rt (Some p) (Some (CHR ''u'' # cs)) = bsp_find_up_neighbor rt p \<and>
   bsp_find_neighbor rt (Some p) (Some (CHR ''d'' # cs)) = bsp_find_down_neighbor rt p"
  by (simp add: bsp_find_neighbor_def split: option.splits list.splits)

theorem find_neighbor_invalid_direction_witness:
  "(case ''west'' of [] \<Rightarrow> True
    | c # cs \<Rightarrow> c \<noteq> CHR ''l'' \<and> c \<noteq> CHR ''r'' \<and> c \<noteq> CHR ''u'' \<and> c \<noteq> CHR ''d'') \<and>
   bsp_find_neighbor two_windows (Some [Second]) (Some ''west'') = None"
  using find_neighbor_invalid_direction [of "''west''" two_windows "Some [Second]"]
  by simp

subsection \<open>Insert\<close>

lemma leaf_ids_leaf [simp]: "leaf_ids (BSPNode True wid r sv fo so) = [wid]"
  by (simp add: leaf_ids_def)

lemma leaf_ids_internal [simp]:
  "leaf_ids (BSPNode False wid r sv (Some f) (Some s)) = leaf_ids f @ leaf_ids s"
  by (simp add: leaf_ids_def)

lemma leaf_ids_nonempty: "proper t \<Longrightarrow> leaf_ids t \<noteq> []"
proof (induction t)
  case (BSPNode il wid r sv fo so)
  then show ?case by (cases il) auto
qed

lemma holders_leaf_ids: "holders t w = length (filter (\<lambda>v. v = w) (leaf_ids t))"
  by (simp add: holders_def leaf_ids_def filter_map comp_def)

lemma windows_leaf_ids: "windows t = filter (\<lambda>v. v \<noteq> - 1) (leaf_ids t)"
  by (simp add: windows_def leaf_ids_def)

lemma insert_effect:
  "proper t \<Longrightarrow>
   \<exists>l rest. insert_target t = Some l \<and> is_leaf l \<and> leaf_ids t = window_id l # rest \<and>
     leaf_ids (bsp_insert True True t w) =
       (if window_id l = - 1 then w # rest else window_id l # w # rest) \<and>
     (shape_of (Some (bsp_insert True True t w)) \<noteq> shape_of (Some t)) = (window_id l \<noteq> - 1)"
proof (induction t)
  case (BSPNode il wid r sv fo so)
  show ?case
  proof (cases il)
    case True
    with BSPNode.prems show ?thesis
      by (simp add: bsp_split_leaf_def Let_def)
  next
    case False
    with BSPNode.prems obtain f s where fs: "fo = Some f" "so = Some s" "proper f" "proper s"
      by auto
    from BSPNode.IH(1) fs obtain l rest where
      l: "insert_target f = Some l" "is_leaf l" "leaf_ids f = window_id l # rest"
        "leaf_ids (bsp_insert True True f w) =
           (if window_id l = - 1 then w # rest else window_id l # w # rest)"
        "(shape_of (Some (bsp_insert True True f w)) \<noteq> shape_of (Some f)) = (window_id l \<noteq> - 1)"
      by auto
    show ?thesis
      using False fs l by (cases "bsp_insert True True f w") auto
  qed
qed

text \<open>
  Claim C7. For every window identifier and every tree, \<^verbatim>\<open>bsp_insert\<close> makes exactly one
  leaf gain the identifier: the leaf that the descent through the first children reaches
  takes it when it is empty, and otherwise is split in two leaves, the old identifier in
  the first and the new one in the second. The number of leaves holding the identifier
  grows by one, no other identifier gains or loses a leaf, and the shape of the tree
  changes exactly when the reached leaf was occupied. The identifiers are those that the
  window discovery supplies: \<^verbatim>\<open>generate_window_id\<close> counts upwards from 1000
  (window_control.c lines 19 and 360), and the theorem takes every identifier other than
  \<open>-1\<close>, the value that marks the empty leaf and that none of them has. The tree is
  well-formed, as every tree that the operations build is, and the allocations of the
  split succeed.
\<close>

theorem insert_gains_one_leaf:
  "w \<noteq> - 1 \<Longrightarrow> proper t \<Longrightarrow>
   holders (bsp_insert True True t w) w = holders t w + 1 \<and>
   (\<forall>v. v \<noteq> w \<and> v \<noteq> - 1 \<longrightarrow> holders (bsp_insert True True t w) v = holders t v) \<and>
   (\<exists>l rest. insert_target t = Some l \<and> is_leaf l \<and> leaf_ids t = window_id l # rest \<and>
      leaf_ids (bsp_insert True True t w) =
        (if window_id l = - 1 then w # rest else window_id l # w # rest) \<and>
      (shape_of (Some (bsp_insert True True t w)) \<noteq> shape_of (Some t)) = (window_id l \<noteq> - 1))"
proof -
  assume w: "w \<noteq> - 1" and t: "proper t"
  from insert_effect [OF t, of w] obtain l rest where
    l: "insert_target t = Some l" "is_leaf l" "leaf_ids t = window_id l # rest"
       "leaf_ids (bsp_insert True True t w) =
          (if window_id l = - 1 then w # rest else window_id l # w # rest)"
       "(shape_of (Some (bsp_insert True True t w)) \<noteq> shape_of (Some t)) = (window_id l \<noteq> - 1)"
    by blast
  have a: "holders (bsp_insert True True t w) w = holders t w + 1"
    using w l(3,4) by (simp add: holders_leaf_ids)
  have b: "\<forall>v. v \<noteq> w \<and> v \<noteq> - 1 \<longrightarrow> holders (bsp_insert True True t w) v = holders t v"
    using l(3,4) by (simp add: holders_leaf_ids)
  from a b l show ?thesis by blast
qed

theorem insert_gains_one_leaf_witness:
  "(1002::int) \<noteq> - 1 \<and> proper two_windows \<and>
   bsp_insert True True two_windows 1002 = three_windows \<and>
   holders three_windows 1002 = holders two_windows 1002 + 1 \<and>
   leaf_ids two_windows = [1000, 1001] \<and> leaf_ids three_windows = [1000, 1002, 1001] \<and>
   shape_of (Some three_windows) \<noteq> shape_of (Some two_windows)"
  using insert_gains_one_leaf [of 1002 two_windows]
  by (simp add: two_windows_def three_windows_def bsp_split_leaf_def Let_def
      display_800x600_def holders_def leaf_ids_def)

subsection \<open>Neighbour search: where the walks end\<close>

lemma node_at_None [simp]: "node_at None p = None"
  by (cases p) simp_all

lemma node_at_append: "node_at n (p @ q) = node_at (node_at n p) q"
proof (induction p arbitrary: n)
  case Nil
  show ?case by simp
next
  case (Cons d p)
  show ?case
  proof (cases n)
    case None
    then show ?thesis by simp
  next
    case (Some m)
    with Cons show ?thesis by (cases d) simp_all
  qed
qed

lemma deref_Nil [simp]: "deref t [] = Some t"
  by (simp add: deref_def)

lemma deref_Cons: "deref t (d # up) = node_at (deref t up) [d]"
  by (simp add: deref_def node_at_append)

lemma deref_append: "deref t (q @ up) = node_at (deref t up) (rev q)"
  by (simp add: deref_def node_at_append)

lemma deref_parent: "deref t (q @ up) = Some n \<Longrightarrow> \<exists>m. deref t up = Some m"
  by (cases "deref t up") (simp_all add: deref_append)

lemma proper_node_at: "proper n \<Longrightarrow> node_at (Some n) p = Some m \<Longrightarrow> proper m"
proof (induction p arbitrary: n)
  case Nil
  then show ?case by simp
next
  case (Cons d p)
  obtain il wid r sv fo so where n: "n = BSPNode il wid r sv fo so" by (cases n)
  show ?case
  proof (cases il)
    case True
    with Cons.prems n show ?thesis by (cases d) simp_all
  next
    case False
    with Cons.prems(1) n obtain f s where fs: "fo = Some f" "so = Some s" "proper f" "proper s"
      by auto
    with Cons.prems(2) n Cons.IH show ?thesis by (cases d) auto
  qed
qed

lemma proper_deref: "proper t \<Longrightarrow> deref t p = Some m \<Longrightarrow> proper m"
  unfolding deref_def by (rule proper_node_at)

lemma leaf_no_child: "proper a \<Longrightarrow> is_leaf a \<Longrightarrow> node_at (Some a) (d # q) = None"
  by (cases a; cases d) auto

lemma leftmost_form:
  "proper n \<Longrightarrow>
   \<exists>j l. bsp_find_leftmost_leaf (Some n) p = Some (replicate j First @ p) \<and>
         node_at (Some n) (replicate j First) = Some l \<and> is_leaf l"
proof (induction n arbitrary: p)
  case (BSPNode il wid r sv fo so)
  show ?case
  proof (cases il)
    case True
    then have "bsp_find_leftmost_leaf (Some (BSPNode il wid r sv fo so)) p = Some (replicate 0 First @ p) \<and>
         node_at (Some (BSPNode il wid r sv fo so)) (replicate 0 First) = Some (BSPNode il wid r sv fo so) \<and> is_leaf (BSPNode il wid r sv fo so)"
      by simp
    then show ?thesis by blast
  next
    case False
    with BSPNode.prems obtain f s where fs: "fo = Some f" "so = Some s" "proper f" "proper s"
      by auto
    from BSPNode.IH(1) [of f "First # p"] fs obtain j l where
      j: "bsp_find_leftmost_leaf (Some f) (First # p) = Some (replicate j First @ First # p)"
         "node_at (Some f) (replicate j First) = Some l" "is_leaf l"
      by auto
    have "bsp_find_leftmost_leaf (Some (BSPNode il wid r sv fo so)) p = Some (replicate (Suc j) First @ p) \<and>
         node_at (Some (BSPNode il wid r sv fo so)) (replicate (Suc j) First) = Some l \<and> is_leaf l"
      using False fs j by (simp add: replicate_app_Cons_same)
    then show ?thesis by blast
  qed
qed

lemma rightmost_form:
  "proper n \<Longrightarrow>
   \<exists>j l. bsp_find_rightmost_leaf (Some n) p = Some (replicate j Second @ p) \<and>
         node_at (Some n) (replicate j Second) = Some l \<and> is_leaf l"
proof (induction n arbitrary: p)
  case (BSPNode il wid r sv fo so)
  show ?case
  proof (cases il)
    case True
    then have "bsp_find_rightmost_leaf (Some (BSPNode il wid r sv fo so)) p = Some (replicate 0 Second @ p) \<and>
         node_at (Some (BSPNode il wid r sv fo so)) (replicate 0 Second) = Some (BSPNode il wid r sv fo so) \<and> is_leaf (BSPNode il wid r sv fo so)"
      by simp
    then show ?thesis by blast
  next
    case False
    with BSPNode.prems obtain f s where fs: "fo = Some f" "so = Some s" "proper f" "proper s"
      by auto
    from BSPNode.IH(2) [of s "Second # p"] fs obtain j l where
      j: "bsp_find_rightmost_leaf (Some s) (Second # p) = Some (replicate j Second @ Second # p)"
         "node_at (Some s) (replicate j Second) = Some l" "is_leaf l"
      by auto
    have "bsp_find_rightmost_leaf (Some (BSPNode il wid r sv fo so)) p = Some (replicate (Suc j) Second @ p) \<and>
         node_at (Some (BSPNode il wid r sv fo so)) (replicate (Suc j) Second) = Some l \<and> is_leaf l"
      using False fs j by (simp add: replicate_app_Cons_same)
    then show ?thesis by blast
  qed
qed

lemma right_neighbor_form:
  "bsp_find_right_neighbor t A = Some B \<Longrightarrow>
   \<exists>pre up P. A = pre @ First # up \<and> deref t up = Some P \<and> split_vertical P \<and>
     bsp_find_leftmost_leaf (second P) (Second # up) = Some B"
proof (induction A)
  case Nil
  then show ?case by simp
next
  case (Cons d up)
  from Cons.prems obtain P where P: "deref t up = Some P"
    by (cases "deref t up") simp_all
  show ?case
  proof (cases "split_vertical P \<and> d = First")
    case True
    with Cons.prems P have "d # up = [] @ First # up \<and> deref t up = Some P \<and> split_vertical P \<and>
       bsp_find_leftmost_leaf (second P) (Second # up) = Some B"
      by simp
    then show ?thesis by blast
  next
    case False
    with Cons.prems P have "bsp_find_right_neighbor t up = Some B" by auto
    from Cons.IH [OF this] obtain pre up' P' where
      "up = pre @ First # up'" "deref t up' = Some P'" "split_vertical P'"
      "bsp_find_leftmost_leaf (second P') (Second # up') = Some B"
      by blast
    then have "d # up = (d # pre) @ First # up' \<and> deref t up' = Some P' \<and> split_vertical P' \<and>
       bsp_find_leftmost_leaf (second P') (Second # up') = Some B"
      by simp
    then show ?thesis by blast
  qed
qed

lemma left_neighbor_skip:
  "set pre \<subseteq> {First} \<Longrightarrow> deref t (pre @ q) = Some n \<Longrightarrow>
   bsp_find_left_neighbor t (pre @ q) = bsp_find_left_neighbor t q"
proof (induction pre arbitrary: n)
  case Nil
  show ?case by simp
next
  case (Cons d pre)
  from Cons.prems(2) deref_parent [of t "[d]" "pre @ q" n] obtain m where
    m: "deref t (pre @ q) = Some m" by auto
  from Cons.prems(1) have d: "d = First" and pre: "set pre \<subseteq> {First}" by auto
  from Cons.IH [OF pre m] m d show ?case by simp
qed

lemma right_neighbor_skip:
  "set pre \<subseteq> {Second} \<Longrightarrow> deref t (pre @ q) = Some n \<Longrightarrow>
   bsp_find_right_neighbor t (pre @ q) = bsp_find_right_neighbor t q"
proof (induction pre arbitrary: n)
  case Nil
  show ?case by simp
next
  case (Cons d pre)
  from Cons.prems(2) deref_parent [of t "[d]" "pre @ q" n] obtain m where
    m: "deref t (pre @ q) = Some m" by auto
  from Cons.prems(1) have d: "d = Second" and pre: "set pre \<subseteq> {Second}" by auto
  from Cons.IH [OF pre m] m d show ?case by simp
qed

lemma spine_leaf_last:
  assumes "proper n" "node_at (Some n) (replicate i d) = Some x" "is_leaf x"
  shows "node_at (Some n) (replicate (i + Suc e) d) = None"
proof -
  have "replicate (i + Suc e) d = replicate i d @ d # replicate e d"
    by (simp add: replicate_add replicate_app_Cons_same)
  then have "node_at (Some n) (replicate (i + Suc e) d) = node_at (Some x) (d # replicate e d)"
    using assms(2) by (simp only: node_at_append)
  moreover have "proper x" using assms(1,2) by (rule proper_node_at)
  ultimately show ?thesis using assms(3) by (simp only: leaf_no_child)
qed

lemma spine_leaf_unique:
  assumes "proper n"
    and "node_at (Some n) (replicate k d) = Some a" "is_leaf a"
    and "node_at (Some n) (replicate m d) = Some b" "is_leaf b"
  shows "k = m"
proof (rule ccontr)
  assume neq: "k \<noteq> m"
  show False
  proof (cases "k < m")
    case True
    from less_imp_Suc_add [OF True] obtain e where e: "m = Suc (k + e)" ..
    have "node_at (Some n) (replicate (k + Suc e) d) = None"
      using assms(1,2,3) by (rule spine_leaf_last)
    then have "node_at (Some n) (replicate m d) = None"
      unfolding e by (simp only: add_Suc_right)
    with assms(4) show False by (simp only: option.distinct)
  next
    case False
    from neq have "k < m \<or> m < k" unfolding nat_neq_iff .
    with False have "m < k" by blast
    from less_imp_Suc_add [OF this] obtain e where e: "k = Suc (m + e)" ..
    have "node_at (Some n) (replicate (m + Suc e) d) = None"
      using assms(1,4,5) by (rule spine_leaf_last)
    then have "node_at (Some n) (replicate k d) = None"
      unfolding e by (simp only: add_Suc_right)
    with assms(2) show False by (simp only: option.distinct)
  qed
qed

lemma round_trip_on_proper_tree:
  assumes t: "proper t"
    and A: "deref t A = Some a" "is_leaf a"
    and r: "bsp_find_right_neighbor t A = Some B"
  shows "\<exists>A' a' b pre up P.
           bsp_find_left_neighbor t B = Some A' \<and>
           deref t A' = Some a' \<and> is_leaf a' \<and>
           deref t B = Some b \<and> is_leaf b \<and>
           bsp_find_right_neighbor t A' = Some B \<and>
           A = pre @ First # up \<and> deref t up = Some P \<and> split_vertical P \<and>
           bsp_find_rightmost_leaf (first P) (First # up) = Some A' \<and>
           (A' = A) = (set pre \<subseteq> {Second})"
proof -
  from right_neighbor_form [OF r] obtain pre up P where
    form: "A = pre @ First # up" "deref t up = Some P" "split_vertical P"
      "bsp_find_leftmost_leaf (second P) (Second # up) = Some B"
    by blast
  have P: "proper P" using t form(2) by (rule proper_deref)
  from A(1) form(1) have "deref t (pre @ [First] @ up) = Some a" by simp
  then have "\<exists>m. deref t ([First] @ up) = Some m" by (rule deref_parent)
  then obtain f where f: "first P = Some f"
    using form(2) by (auto simp: deref_Cons)
  with P obtain s where s: "second P = Some s" and pf: "proper f" and ps: "proper s"
    by (cases P) (auto split: if_splits)
  from leftmost_form [OF ps, of "Second # up"] form(4) s obtain j b where
    B: "B = replicate j First @ Second # up" "node_at (Some s) (replicate j First) = Some b"
       "is_leaf b"
    by auto
  have dB: "deref t B = Some b"
    using B(1,2) form(2) s by (simp add: deref_append deref_Cons)
  from rightmost_form [OF pf, of "First # up"] obtain m a' where
    A': "bsp_find_rightmost_leaf (Some f) (First # up) = Some (replicate m Second @ First # up)"
        "node_at (Some f) (replicate m Second) = Some a'" "is_leaf a'"
    by blast
  define A' where "A' = replicate m Second @ First # up"
  have dA': "deref t A' = Some a'"
    using A'(2) form(2) f by (simp add: A'_def deref_append deref_Cons)
  have "bsp_find_left_neighbor t B = bsp_find_left_neighbor t (Second # up)"
    unfolding B(1) using dB B(1) by (intro left_neighbor_skip [where n = b]) auto
  then have l: "bsp_find_left_neighbor t B = Some A'"
    using form(2,3) f A'(1) by (simp add: A'_def)
  have "bsp_find_right_neighbor t A' = bsp_find_right_neighbor t (First # up)"
    unfolding A'_def using dA' by (intro right_neighbor_skip [where n = a']) (auto simp: A'_def)
  then have r': "bsp_find_right_neighbor t A' = Some B"
    using form(2,3,4) by simp
  have eq: "(A' = A) = (set pre \<subseteq> {Second})"
  proof
    assume "A' = A"
    then have "pre = replicate m Second" using form(1) by (simp add: A'_def)
    then show "set pre \<subseteq> {Second}" by auto
  next
    assume sub: "set pre \<subseteq> {Second}"
    then have "pre = replicate (length pre) Second"
      by (metis replicate_length_same singletonD subsetD)
    then obtain k where pre: "pre = replicate k Second" ..
    have "deref t A = node_at (node_at (deref t up) [First]) (replicate k Second)"
      unfolding form(1) pre by (simp add: deref_append deref_Cons)
    then have "node_at (Some f) (replicate k Second) = Some a"
      using A(1) form(2) f by simp
    from spine_leaf_unique [OF pf this A(2) A'(2,3)] show "A' = A"
      unfolding form(1) pre A'_def by simp
  qed
  have rm: "bsp_find_rightmost_leaf (first P) (First # up) = Some A'"
    using A'(1) f by (simp add: A'_def)
  show ?thesis
    by (rule exI [of _ A'], rule exI [of _ a'], rule exI [of _ b], rule exI [of _ pre],
        rule exI [of _ up], rule exI [of _ P])
       (simp add: l dA' A'(3) dB B(3) r' form(1,2,3) rm eq [unfolded form(1)])
qed

text \<open>
  Claim C3, as stated: in a tree built by inserts alone, if the right neighbour of leaf A
  is B then the left neighbour of B is A. It fails in the tree with three windows: the
  right neighbour of the leaf of window 1000 (top left) is the leaf of window 1001
  (right half), whose left neighbour is the leaf of window 1002 (bottom left). Both
  left-hand leaves touch the right-hand one, and the walk back descends to the
  rightmost leaf of the left subtree.
\<close>

theorem neighbor_symmetry_counterexample:
  "run [Insert 1000 True True, Insert 1001 True True, Insert 1002 True True]
     (bsp_create_root display_800x600) = Some three_windows \<and>
   map_option is_leaf (deref three_windows [First, First]) = Some True \<and>
   map_option is_leaf (deref three_windows [Second]) = Some True \<and>
   bsp_find_right_neighbor three_windows [First, First] = Some [Second] \<and>
   bsp_find_left_neighbor three_windows [Second] = Some [Second, First] \<and>
   bsp_find_left_neighbor three_windows [Second] \<noteq> Some [First, First]"
  by (simp add: bsp_create_root_def bsp_split_leaf_def Let_def display_800x600_def
      three_windows_def deref_def)

text \<open>
  Claim C3, amended. In every tree that the operations build from an empty root with
  successful allocations, so in every tree built by inserts and splits alone: if the
  right neighbour of leaf A is B, then B is a leaf and its left neighbour is a leaf A'
  whose right neighbour is B again. A' is the rightmost leaf under the first child of
  the vertical split P that separates A from B, and A' is A exactly when A is reached
  from that first child by second-child steps only.
\<close>

theorem neighbor_round_trip:
  assumes "list_all allocs_succeed ops"
    and "run ops (bsp_create_root r) = Some t"
    and "deref t A = Some a" and "is_leaf a"
    and "bsp_find_right_neighbor t A = Some B"
  shows "\<exists>A' a' b pre up P.
           bsp_find_left_neighbor t B = Some A' \<and>
           deref t A' = Some a' \<and> is_leaf a' \<and>
           deref t B = Some b \<and> is_leaf b \<and>
           bsp_find_right_neighbor t A' = Some B \<and>
           A = pre @ First # up \<and> deref t up = Some P \<and> split_vertical P \<and>
           bsp_find_rightmost_leaf (first P) (First # up) = Some A' \<and>
           (A' = A) = (set pre \<subseteq> {Second})"
proof -
  from proper_run [OF proper_create_root assms(1), of r] assms(2) have "proper t" by simp
  from this assms(3,4,5) show ?thesis by (rule round_trip_on_proper_tree)
qed

theorem neighbor_round_trip_witness:
  "list_all allocs_succeed [Insert 1000 True True, Insert 1001 True True, Insert 1002 True True] \<and>
   run [Insert 1000 True True, Insert 1001 True True, Insert 1002 True True]
     (bsp_create_root display_800x600) = Some three_windows \<and>
   deref three_windows [First, First] =
     Some (BSPNode True 1000
       \<lparr>origin_x = Finite 0, origin_y = Finite 0,
          size_width = Finite 400, size_height = Finite 300\<rparr> False None None) \<and>
   bsp_find_right_neighbor three_windows [First, First] = Some [Second] \<and>
   (\<exists>A'. bsp_find_left_neighbor three_windows [Second] = Some A' \<and>
      bsp_find_right_neighbor three_windows A' = Some [Second])"
proof -
  have 1: "list_all allocs_succeed
     [Insert 1000 True True, Insert 1001 True True, Insert 1002 True True]"
    by simp
  have 2: "run [Insert 1000 True True, Insert 1001 True True, Insert 1002 True True]
     (bsp_create_root display_800x600) = Some three_windows"
    by (simp add: bsp_create_root_def bsp_split_leaf_def Let_def display_800x600_def
      three_windows_def)
  have 3: "deref three_windows [First, First] =
     Some (BSPNode True 1000
       \<lparr>origin_x = Finite 0, origin_y = Finite 0,
          size_width = Finite 400, size_height = Finite 300\<rparr> False None None)"
    by (simp add: three_windows_def deref_def)
  have 4: "is_leaf (BSPNode True 1000
       \<lparr>origin_x = Finite 0, origin_y = Finite 0,
          size_width = Finite 400, size_height = Finite 300\<rparr> False None None)"
    by simp
  have 5: "bsp_find_right_neighbor three_windows [First, First] = Some [Second]"
    by (simp add: three_windows_def deref_def)
  from neighbor_round_trip [OF 1 2 3 4 5] have
    "\<exists>A'. bsp_find_left_neighbor three_windows [Second] = Some A' \<and>
      bsp_find_right_neighbor three_windows A' = Some [Second]"
    by blast
  with 1 2 3 5 show ?thesis by blast
qed

subsection \<open>The windows of a tree under the operations\<close>

lemma windows_leaf [simp]:
  "windows (BSPNode True wid r sv fo so) = (if wid = - 1 then [] else [wid])"
  by (simp add: windows_def)

lemma windows_internal [simp]:
  "windows (BSPNode False wid r sv (Some f) (Some s)) = windows f @ windows s"
  by (simp add: windows_def)

lemma empty_marker_not_window [simp]: "- 1 \<notin> set (windows t)"
  by (simp add: windows_def)

lemma windows_subset_leaf_ids: "set (windows t) \<subseteq> set (leaf_ids t)"
  by (auto simp: windows_leaf_ids)

lemma windows_insert:
  assumes "proper t" "w \<noteq> - 1"
  shows "mset (windows (bsp_insert True True t w)) = mset (windows t) + {#w#}"
proof -
  from insert_effect [OF assms(1), of w] obtain l rest where
    "leaf_ids t = window_id l # rest"
    "leaf_ids (bsp_insert True True t w) =
       (if window_id l = - 1 then w # rest else window_id l # w # rest)"
    by blast
  with assms(2) show ?thesis by (simp add: windows_leaf_ids)
qed

lemma windows_insert_marker:
  assumes "proper t"
  shows "windows (bsp_insert True True t (- 1)) = windows t"
proof -
  from insert_effect [OF assms(1), of "- 1"] obtain l rest where
    "leaf_ids t = window_id l # rest"
    "leaf_ids (bsp_insert True True t (- 1)) =
       (if window_id l = - 1 then - 1 # rest else window_id l # - 1 # rest)"
    by blast
  then show ?thesis by (simp add: windows_leaf_ids)
qed

lemma windows_split_leaf:
  "is_leaf n \<Longrightarrow>
   windows (bsp_split_leaf True True n w) = windows n @ (if w = - 1 then [] else [w])"
  by (cases n) (simp add: bsp_split_leaf_def Let_def)

lemma split_not_leaf: "\<not> is_leaf n \<Longrightarrow> bsp_split_leaf a1 a2 n w = n"
  by (simp add: bsp_split_leaf_def)

lemma windows_collapse:
  assumes "proper n" "bsp_collapse_empty_branches n = Some n'"
  shows "windows n' = windows n"
proof (cases "is_leaf n")
  case True
  with assms show ?thesis by (simp add: bsp_collapse_empty_branches_def)
next
  case False
  with assms(1) obtain wid r sv f s where
    n: "n = BSPNode False wid r sv (Some f) (Some s)" "proper f" "proper s"
    by (cases n) auto
  from n(2,3) assms(2) show ?thesis
    unfolding n(1)
    by (cases f; cases s)
       (auto simp: bsp_collapse_empty_branches_def Let_def split: if_splits)
qed

lemma remove_effect:
  "proper n \<Longrightarrow> bsp_remove_window n w = Some (b, n') \<Longrightarrow>
   windows n' = remove1 w (windows n) \<and> (b \<longrightarrow> w \<in> set (leaf_ids n)) \<and>
   (\<not> b \<longrightarrow> w \<notin> set (leaf_ids n) \<and> n' = n)"
proof (induction n arbitrary: b n')
  case (BSPNode il wid r sv fo so)
  show ?case
  proof (cases il)
    case True
    with BSPNode.prems show ?thesis by (auto simp: remove_leaf split: if_splits)
  next
    case False
    then have il: "il = False" by simp
    from BSPNode.prems(1) False obtain f s where
      fs: "fo = Some f" "so = Some s" "proper f" "proper s"
      by auto
    from proper_remove [OF fs(3), of w] obtain b1 f' where
      f': "bsp_remove_window f w = Some (b1, f')" "proper f'" by blast
    from proper_remove [OF fs(4), of w] obtain b2 s' where
      s': "bsp_remove_window s w = Some (b2, s')" "proper s'" by blast
    from BSPNode.IH(1) [of f b1 f'] fs f' have
      ef: "windows f' = remove1 w (windows f)" "b1 \<longrightarrow> w \<in> set (leaf_ids f)"
          "\<not> b1 \<longrightarrow> w \<notin> set (leaf_ids f) \<and> f' = f"
      by auto
    from BSPNode.IH(2) [of s b2 s'] fs s' have
      es: "windows s' = remove1 w (windows s)" "b2 \<longrightarrow> w \<in> set (leaf_ids s)"
          "\<not> b2 \<longrightarrow> w \<notin> set (leaf_ids s) \<and> s' = s"
      by auto
    show ?thesis
    proof (cases b1)
      case True
      with BSPNode.prems(2) f' obtain c where
        c: "bsp_collapse_empty_branches (BSPNode False wid r sv (Some f') (Some s)) = Some c"
           "n' = c" "b = True"
        unfolding fs il remove_internal by auto
      have "proper (BSPNode False wid r sv (Some f') (Some s))" using f' fs by simp
      from windows_collapse [OF this c(1)] have "windows c = windows f' @ windows s" by simp
      moreover have "w = - 1" if "w \<notin> set (windows f)"
        using that ef(2) True by (auto simp: windows_leaf_ids)
      ultimately have "windows c = remove1 w (windows f @ windows s)"
        using ef(1) by (auto simp: remove1_append remove1_idem)
      with c True ef(2) show ?thesis by (simp add: fs il)
    next
      case b1: False
      with ef have ff: "f' = f" "w \<notin> set (leaf_ids f)" by auto
      then have wf: "w \<notin> set (windows f)" using windows_subset_leaf_ids by blast
      show ?thesis
      proof (cases b2)
        case True
        with BSPNode.prems(2) f' s' b1 obtain c where
          c: "bsp_collapse_empty_branches (BSPNode False wid r sv (Some f') (Some s')) = Some c"
             "n' = c" "b = True"
          unfolding fs il remove_internal by auto
        have "proper (BSPNode False wid r sv (Some f') (Some s'))" using f' s' by simp
        from windows_collapse [OF this c(1)] have "windows c = windows f' @ windows s'" by simp
        with es(1) ff wf have "windows c = remove1 w (windows f @ windows s)"
          by (simp add: remove1_append)
        with c True es(2) show ?thesis by (simp add: fs il)
      next
        case False
        with BSPNode.prems(2) f' s' b1 have "n' = BSPNode False wid r sv (Some f') (Some s')" "b = False"
          unfolding fs il remove_internal by auto
        with es False ff wf show ?thesis
          by (simp add: fs il remove1_append remove1_idem windows_leaf_ids)
      qed
    qed
  qed
qed

lemma windows_apply_at:
  "proper t \<Longrightarrow> apply_at f p t = Some t' \<Longrightarrow>
   \<exists>A B m m'. windows t = A @ windows m @ B \<and> windows t' = A @ windows m' @ B \<and>
     proper m \<and> (f m = Some m' \<or> m' = m)"
proof (induction f p t arbitrary: t' rule: apply_at.induct)
  case (1 f n)
  then have "windows n = [] @ windows n @ [] \<and> windows t' = [] @ windows t' @ [] \<and>
     proper n \<and> (f n = Some t' \<or> t' = n)" by simp
  then show ?case by blast
next
  case (2 f p il wid r sv fo so)
  let ?n = "BSPNode il wid r sv fo so"
  show ?case
  proof (cases il)
    case True
    with "2.prems" have "windows ?n = [] @ windows ?n @ [] \<and> windows t' = [] @ windows ?n @ [] \<and>
       proper ?n \<and> (f ?n = Some ?n \<or> ?n = ?n)" by auto
    then show ?thesis by blast
  next
    case False
    with "2.prems"(1) obtain c s where cs: "fo = Some c" "so = Some s" "proper c" "proper s"
      by auto
    with "2.prems"(2) obtain c' where c': "apply_at f p c = Some c'"
      "t' = BSPNode il wid r sv (Some c') so" by auto
    from "2.IH" [OF cs(1) cs(3) c'(1)] obtain A B m m' where
      "windows c = A @ windows m @ B" "windows c' = A @ windows m' @ B"
      "proper m" "f m = Some m' \<or> m' = m" by blast
    then have "windows ?n = A @ windows m @ (B @ windows s) \<and>
      windows t' = A @ windows m' @ (B @ windows s) \<and> proper m \<and> (f m = Some m' \<or> m' = m)"
      using False cs c'(2) by simp
    then show ?thesis by blast
  qed
next
  case (3 f p il wid r sv fo so)
  let ?n = "BSPNode il wid r sv fo so"
  show ?case
  proof (cases il)
    case True
    with "3.prems" have "windows ?n = [] @ windows ?n @ [] \<and> windows t' = [] @ windows ?n @ [] \<and>
       proper ?n \<and> (f ?n = Some ?n \<or> ?n = ?n)" by auto
    then show ?thesis by blast
  next
    case False
    with "3.prems"(1) obtain c0 c where cs: "fo = Some c0" "so = Some c" "proper c0" "proper c"
      by auto
    with "3.prems"(2) obtain c' where c': "apply_at f p c = Some c'"
      "t' = BSPNode il wid r sv fo (Some c')" by auto
    from "3.IH" [OF cs(2) cs(4) c'(1)] obtain A B m m' where
      "windows c = A @ windows m @ B" "windows c' = A @ windows m' @ B"
      "proper m" "f m = Some m' \<or> m' = m" by blast
    then have "windows ?n = (windows c0 @ A) @ windows m @ B \<and>
      windows t' = (windows c0 @ A) @ windows m' @ B \<and> proper m \<and> (f m = Some m' \<or> m' = m)"
      using False cs c'(2) by simp
    then show ?thesis by blast
  qed
qed

lemma distinct_apply_op:
  assumes "proper t" "distinct (windows t)" "allocs_succeed x" "fresh_op x t"
    and "apply_op x t = Some t'"
  shows "distinct (windows t')"
proof (cases x)
  case (Insert w a1 a2)
  with assms(3,5) have t': "t' = bsp_insert True True t w" by auto
  show ?thesis
  proof (cases "w = - 1")
    case True
    with t' assms(1,2) show ?thesis by (simp add: windows_insert_marker)
  next
    case False
    from windows_insert [OF assms(1) False] t' have
      "mset (windows t') = mset (w # windows t)" by simp
    then have "distinct (windows t') = distinct (w # windows t)" by (rule mset_eq_imp_distinct_iff)
    with assms(2,4) Insert show ?thesis by simp
  qed
next
  case (Remove w)
  with assms(5) obtain b where "bsp_remove_window t w = Some (b, t')" by auto
  from remove_effect [OF assms(1) this] assms(2) show ?thesis by simp
next
  case (Split p w a1 a2)
  with assms(3,5) have "apply_at (\<lambda>n. Some (bsp_split_leaf True True n w)) p t = Some t'"
    by auto
  from windows_apply_at [OF assms(1) this] obtain A B m m' where
    d: "windows t = A @ windows m @ B" "windows t' = A @ windows m' @ B"
       "m' = bsp_split_leaf True True m w \<or> m' = m" by auto
  have "windows m' = windows m \<or> windows m' = windows m @ [w]"
    using d(3) windows_split_leaf [of m w] split_not_leaf [of m True True w]
    by (cases "is_leaf m"; cases "w = - 1") auto
  then show ?thesis
  proof
    assume "windows m' = windows m"
    with d assms(2) show ?thesis by simp
  next
    assume "windows m' = windows m @ [w]"
    with d assms(2,4) Split show ?thesis by auto
  qed
next
  case (Collapse p)
  with assms(5) have "apply_at bsp_collapse_empty_branches p t = Some t'" by simp
  from windows_apply_at [OF assms(1) this] obtain A B m m' where
    d: "windows t = A @ windows m @ B" "windows t' = A @ windows m' @ B" "proper m"
       "bsp_collapse_empty_branches m = Some m' \<or> m' = m" by auto
  then have "windows m' = windows m" using windows_collapse by blast
  with d assms(2) show ?thesis by simp
qed

lemma distinct_run:
  "proper t \<Longrightarrow> distinct (windows t) \<Longrightarrow> list_all allocs_succeed xs \<Longrightarrow> fresh_run xs t \<Longrightarrow>
   \<exists>t'. run xs t = Some t' \<and> proper t' \<and> distinct (windows t')"
proof (induction xs arbitrary: t)
  case Nil
  then show ?case by simp
next
  case (Cons x xs)
  from Cons.prems(3) have ok: "allocs_succeed x" "list_all allocs_succeed xs" by simp_all
  from proper_apply_op [OF Cons.prems(1) ok(1)] obtain t1 where
    t1: "apply_op x t = Some t1" "proper t1" by blast
  from Cons.prems(4) t1(1) have fr: "fresh_op x t" "fresh_run xs t1" by simp_all
  from distinct_apply_op [OF Cons.prems(1,2) ok(1) fr(1) t1(1)] have "distinct (windows t1)" .
  from Cons.IH [OF t1(2) this ok(2) fr(2)] t1(1) show ?case by simp
qed

lemma run_append:
  "run (xs @ ys) t = (case run xs t of None \<Rightarrow> None | Some t' \<Rightarrow> run ys t')"
  by (induction xs arbitrary: t) (auto split: option.splits)

lemma run_single: "run [x] t = apply_op x t"
  by (cases "apply_op x t") simp_all

lemma fresh_run_append:
  "fresh_run (xs @ ys) t \<Longrightarrow> fresh_run xs t"
  by (induction xs arbitrary: t) (auto split: option.splits)

lemma removed_absent:
  assumes "proper t" "distinct (windows t)" "apply_op (Remove w) t = Some t'"
  shows "w \<notin> set (windows t')"
proof -
  from assms(3) obtain b where "bsp_remove_window t w = Some (b, t')" by auto
  from remove_effect [OF assms(1) this] assms(2) show ?thesis by simp
qed

lemma holders_windows:
  "w \<noteq> - 1 \<Longrightarrow> holders t w = length (filter (\<lambda>v. v = w) (windows t))"
proof -
  assume "w \<noteq> - 1"
  then have "(\<lambda>v. v \<noteq> - 1 \<and> v = w) = (\<lambda>v. v = w)" by auto
  then show ?thesis by (simp add: holders_leaf_ids windows_leaf_ids)
qed

lemma distinct_filter_eq: "distinct xs \<Longrightarrow> length (filter (\<lambda>v. v = w) xs) \<le> 1"
proof (induction xs)
  case Nil
  show ?case by simp
next
  case (Cons x xs)
  show ?case
  proof (cases "x = w")
    case True
    with Cons.prems have "filter (\<lambda>v. v = w) xs = []" by (auto simp: filter_empty_conv)
    with True show ?thesis by simp
  next
    case False
    with Cons show ?thesis by simp
  qed
qed

text \<open>
  Claim C6, as stated: after any sequence of operations no identifier is in more than one
  leaf, and a removed identifier is in no leaf. It fails when an identifier is inserted
  twice: \<^verbatim>\<open>bsp_insert\<close> does not look the identifier up, so two leaves hold window
  1000, and after one removal one of them still does.
\<close>

theorem duplicate_insert_counterexample:
  "run [Insert 1000 True True, Insert 1000 True True] (bsp_create_root display_800x600) =
     Some inserted_twice \<and>
   holders inserted_twice 1000 = 2 \<and>
   run [Insert 1000 True True, Insert 1000 True True, Remove 1000]
     (bsp_create_root display_800x600) =
     Some (BSPNode True 1000 display_800x600 False None None) \<and>
   holders (BSPNode True 1000 display_800x600 False None None) 1000 = 1"
  by (simp add: bsp_create_root_def bsp_split_leaf_def Let_def display_800x600_def
      inserted_twice_def holders_def bsp_collapse_empty_branches_def)

text \<open>
  Claim C6, amended. When every insert and every split brings an identifier that no leaf
  of the tree holds at that moment, and the allocations succeed, then after any sequence
  of inserts, removes, splits and collapses on a tree made by \<^verbatim>\<open>bsp_create_root\<close> no
  window identifier is held by more than one leaf, and right after the removal of an
  identifier no leaf holds it.
\<close>

theorem windows_unique:
  assumes "list_all allocs_succeed ops" and "fresh_run ops (bsp_create_root r)"
  shows "\<exists>t. run ops (bsp_create_root r) = Some t \<and> distinct (windows t) \<and>
           (\<forall>w. w \<noteq> - 1 \<longrightarrow> holders t w \<le> 1) \<and>
           (\<forall>ops' w. ops = ops' @ [Remove w] \<longrightarrow> holders t w = 0 \<or> w = - 1)"
proof -
  have root: "proper (bsp_create_root r)" "distinct (windows (bsp_create_root r))"
    by (simp_all add: bsp_create_root_def)
  from distinct_run [OF root assms] obtain t where
    t: "run ops (bsp_create_root r) = Some t" "proper t" "distinct (windows t)" by blast
  have one: "\<forall>w. w \<noteq> - 1 \<longrightarrow> holders t w \<le> 1"
    using distinct_filter_eq [OF t(3)] by (auto simp: holders_windows)
  have rem: "holders t w = 0 \<or> w = - 1" if ops: "ops = ops' @ [Remove w]" for ops' w
  proof -
    from assms(1) ops have ok: "list_all allocs_succeed ops'" by simp
    from assms(2) ops have "fresh_run ops' (bsp_create_root r)"
      using fresh_run_append by blast
    from distinct_run [OF root ok this] obtain t0 where
      t0: "run ops' (bsp_create_root r) = Some t0" "proper t0" "distinct (windows t0)" by blast
    from t(1) t0(1) have "apply_op (Remove w) t0 = Some t"
      unfolding ops run_append run_single by simp
    from removed_absent [OF t0(2,3) this] have "w \<notin> set (windows t)" .
    then have "filter (\<lambda>v. v = w) (windows t) = []" by (auto simp: filter_empty_conv)
    then show ?thesis by (cases "w = - 1") (simp_all add: holders_windows)
  qed
  from t(1,3) one rem show ?thesis by blast
qed

theorem windows_unique_witness:
  "list_all allocs_succeed
     [Insert 1000 True True, Insert 1001 True True, Insert 1002 True True, Remove 1001] \<and>
   fresh_run
     [Insert 1000 True True, Insert 1001 True True, Insert 1002 True True, Remove 1001]
     (bsp_create_root display_800x600) \<and>
   run [Insert 1000 True True, Insert 1001 True True, Insert 1002 True True, Remove 1001]
     (bsp_create_root display_800x600) = Some after_removal \<and>
   distinct (windows after_removal) \<and> holders after_removal 1001 = 0"
proof -
  let ?ops = "[Insert 1000 True True, Insert 1001 True True, Insert 1002 True True, Remove 1001]"
  have 1: "list_all allocs_succeed ?ops" by simp
  have 2: "fresh_run ?ops (bsp_create_root display_800x600)"
    by (simp add: bsp_create_root_def bsp_split_leaf_def Let_def display_800x600_def
        windows_def bsp_collapse_empty_branches_def)
  have 3: "run ?ops (bsp_create_root display_800x600) = Some after_removal"
    by (simp add: bsp_create_root_def bsp_split_leaf_def Let_def display_800x600_def
        after_removal_def bsp_collapse_empty_branches_def)
  from windows_unique [OF 1 2] 3 have
    "distinct (windows after_removal) \<and> holders after_removal 1001 = 0"
    by auto
  with 1 2 3 show ?thesis by blast
qed

subsection \<open>Insert all, remove all\<close>

lemma occupied_iff:
  "occupied (BSPNode il wid r sv fo so) =
     (if il then wid \<noteq> - 1 \<and> \<not> sv \<and> fo = None \<and> so = None
      else (\<exists>f s. fo = Some f \<and> so = Some s \<and> occupied f \<and> occupied s))"
  by (simp split: option.splits)

declare occupied.simps [simp del]
declare occupied_iff [simp]

lemma occupied_proper: "occupied t \<Longrightarrow> proper t"
proof (induction t)
  case (BSPNode il wid r sv fo so)
  then show ?case by (cases il) auto
qed

lemma occupied_rect:
  "occupied (BSPNode (is_leaf s) (window_id s) r (split_vertical s) (first s) (second s)) =
   occupied s"
  by (cases s) simp

lemma occupied_windows: "occupied t \<Longrightarrow> windows t \<noteq> []"
proof (induction t)
  case (BSPNode il wid r sv fo so)
  then show ?case by (cases il) auto
qed

lemma occupied_insert: "occupied t \<Longrightarrow> w \<noteq> - 1 \<Longrightarrow> occupied (bsp_insert True True t w)"
proof (induction t)
  case (BSPNode il wid r sv fo so)
  show ?case
  proof (cases il)
    case True
    with BSPNode.prems show ?thesis by (simp add: bsp_split_leaf_def Let_def)
  next
    case False
    with BSPNode.prems BSPNode.IH(1) show ?thesis by auto
  qed
qed

lemma insert_create_root:
  "bsp_insert True True (bsp_create_root r) w = BSPNode True w r False None None"
  by (simp add: bsp_create_root_def)

lemma occupied_collapse:
  assumes "occupied s" "f = bsp_create_root rf \<or> occupied f"
  shows "\<exists>c. bsp_collapse_empty_branches (BSPNode False wid r sv (Some f) (Some s)) = Some c \<and>
             occupied c"
  using assms
  by (cases s; cases f)
     (auto simp: bsp_collapse_empty_branches_def Let_def bsp_create_root_def)

lemma occupied_collapse2:
  assumes "occupied f" "s = bsp_create_root rs \<or> occupied s"
  shows "\<exists>c. bsp_collapse_empty_branches (BSPNode False wid r sv (Some f) (Some s)) = Some c \<and>
             occupied c"
  using assms
  by (cases s; cases f)
     (auto simp: bsp_collapse_empty_branches_def Let_def bsp_create_root_def)

lemma occupied_remove:
  "occupied n \<Longrightarrow> bsp_remove_window n w = Some (b, n') \<Longrightarrow>
   n' = bsp_create_root (rect n) \<or> occupied n'"
proof (induction n arbitrary: b n')
  case (BSPNode il wid r sv fo so)
  show ?case
  proof (cases il)
    case True
    with BSPNode.prems show ?thesis
      by (auto simp: remove_leaf bsp_create_root_def split: if_splits)
  next
    case False
    then have il: "il = False" by simp
    from BSPNode.prems(1) False obtain f s where
      fs: "fo = Some f" "so = Some s" "occupied f" "occupied s"
      by auto
    from proper_remove [OF occupied_proper [OF fs(3)], of w] obtain b1 f' where
      f': "bsp_remove_window f w = Some (b1, f')" by blast
    from proper_remove [OF occupied_proper [OF fs(4)], of w] obtain b2 s' where
      s': "bsp_remove_window s w = Some (b2, s')" by blast
    from BSPNode.IH(1) [of f b1 f'] fs f' have
      ef: "f' = bsp_create_root (rect f) \<or> occupied f'" by auto
    from BSPNode.IH(2) [of s b2 s'] fs s' have
      es: "s' = bsp_create_root (rect s) \<or> occupied s'" by auto
    show ?thesis
    proof (cases b1)
      case True
      from occupied_collapse [OF fs(4) ef, of wid r sv] obtain c where
        "bsp_collapse_empty_branches (BSPNode False wid r sv (Some f') (Some s)) = Some c"
        "occupied c" by blast
      with BSPNode.prems(2) f' True show ?thesis
        unfolding fs il remove_internal by auto
    next
      case b1: False
      from remove_effect [OF occupied_proper [OF fs(3)] f'] b1 have ff: "f' = f" by simp
      show ?thesis
      proof (cases b2)
        case True
        from occupied_collapse2 [OF fs(3) es, of wid r sv] obtain c where
          "bsp_collapse_empty_branches (BSPNode False wid r sv (Some f) (Some s')) = Some c"
          "occupied c" by blast
        with BSPNode.prems(2) f' s' b1 True ff show ?thesis
          unfolding fs il remove_internal by auto
      next
        case False
        from remove_effect [OF occupied_proper [OF fs(4)] s'] False have "s' = s" by simp
        with BSPNode.prems(2) f' s' b1 False ff fs show ?thesis
          unfolding fs il remove_internal by auto
      qed
    qed
  qed
qed

lemma remove_create_root:
  "\<exists>b. bsp_remove_window (bsp_create_root r) w = Some (b, bsp_create_root r)"
  by (auto simp: bsp_create_root_def)

lemma run_inserts:
  assumes "- 1 \<notin> set ws"
  shows "t = bsp_create_root r \<or> occupied t \<Longrightarrow> rect t = r \<Longrightarrow>
   \<exists>t'. run (map (\<lambda>w. Insert w True True) ws) t = Some t' \<and>
     (t' = bsp_create_root r \<or> occupied t') \<and> rect t' = r \<and>
     mset (windows t') = mset (windows t) + mset ws"
  using assms
proof (induction ws arbitrary: t)
  case Nil
  then show ?case by simp
next
  case (Cons w ws)
  from Cons.prems(3) have w: "w \<noteq> - 1" "- 1 \<notin> set ws" by auto
  let ?t1 = "bsp_insert True True t w"
  have p: "proper t" using Cons.prems(1) occupied_proper proper_create_root by blast
  have 1: "?t1 = bsp_create_root r \<or> occupied ?t1"
    using Cons.prems(1) w(1) by (auto simp: insert_create_root occupied_insert)
  have 2: "rect ?t1 = r" using Cons.prems(2) by (simp add: rect_insert)
  from Cons.IH [OF 1 2 w(2)] obtain t' where
    "run (map (\<lambda>w. Insert w True True) ws) ?t1 = Some t'"
    "t' = bsp_create_root r \<or> occupied t'" "rect t' = r"
    "mset (windows t') = mset (windows ?t1) + mset ws" by blast
  then show ?case using windows_insert [OF p w(1)] by simp
qed

lemma run_removes:
  "t = bsp_create_root r \<or> occupied t \<Longrightarrow> rect t = r \<Longrightarrow>
   \<exists>t'. run (map Remove rs) t = Some t' \<and>
     (t' = bsp_create_root r \<or> occupied t') \<and> rect t' = r \<and>
     mset (windows t') = mset (windows t) - mset rs"
proof (induction rs arbitrary: t)
  case Nil
  then show ?case by simp
next
  case (Cons w rs)
  have p: "proper t" using Cons.prems(1) occupied_proper proper_create_root by blast
  from proper_remove [OF p, of w] obtain b t1 where
    t1: "bsp_remove_window t w = Some (b, t1)" by blast
  have 1: "t1 = bsp_create_root r \<or> occupied t1"
    using Cons.prems t1 occupied_remove [of t w b t1] remove_create_root [of r w] by auto
  have 2: "rect t1 = r" using rect_remove [OF t1] Cons.prems(2) by simp
  from Cons.IH [OF 1 2] obtain t' where
    "run (map Remove rs) t1 = Some t'"
    "t' = bsp_create_root r \<or> occupied t'" "rect t' = r"
    "mset (windows t') = mset (windows t1) - mset rs" by blast
  moreover have "mset (windows t1) = mset (windows t) - {#w#}"
    using remove_effect [OF p t1] by simp
  moreover have "mset (windows t) - {#w#} - mset rs = mset (windows t) - add_mset w (mset rs)"
    by (simp add: multiset_eq_iff)
  ultimately show ?case using t1 by simp
qed

text \<open>
  Claim C2. Inserting window identifiers, none of them \<open>-1\<close>, into a root made by
  \<^verbatim>\<open>bsp_create_root\<close> and then removing them all, in any order, gives back the root as it
  was created: a single empty leaf with the rectangle of the creation, no children and
  no orientation. The allocations of the inserts succeed. The order of removal is any
  list with the same elements; the identifiers need not even be distinct.
\<close>

theorem insert_remove_round_trip:
  assumes "- 1 \<notin> set ws" and "mset rs = mset ws"
  shows "run (map (\<lambda>w. Insert w True True) ws @ map Remove rs) (bsp_create_root r) =
           Some (bsp_create_root r)"
proof -
  have r0: "rect (bsp_create_root r) = r" by (simp add: bsp_create_root_def)
  from run_inserts [OF assms(1) _ r0] obtain t1 where
    t1: "run (map (\<lambda>w. Insert w True True) ws) (bsp_create_root r) = Some t1"
        "t1 = bsp_create_root r \<or> occupied t1" "rect t1 = r"
        "mset (windows t1) = mset (windows (bsp_create_root r)) + mset ws" by blast
  from run_removes [OF t1(2,3), of rs] obtain t2 where
    t2: "run (map Remove rs) t1 = Some t2"
        "t2 = bsp_create_root r \<or> occupied t2"
        "mset (windows t2) = mset (windows t1) - mset rs" by blast
  from t2(3) t1(4) assms(2) have "windows t2 = []"
    by (simp add: bsp_create_root_def)
  with t2(2) occupied_windows have "t2 = bsp_create_root r" by blast
  with t1(1) t2(1) show ?thesis by (simp add: run_append)
qed

theorem insert_remove_round_trip_witness:
  "- 1 \<notin> set [1000, 1001, 1002 :: int] \<and>
   mset [1001, 1002, 1000 :: int] = mset [1000, 1001, 1002] \<and>
   run (map (\<lambda>w. Insert w True True) [1000, 1001, 1002] @ map Remove [1001, 1002, 1000])
     (bsp_create_root display_800x600) = Some (bsp_create_root display_800x600)"
proof -
  have 1: "- 1 \<notin> set [1000, 1001, 1002 :: int]" by simp
  have 2: "mset [1001, 1002, 1000 :: int] = mset [1000, 1001, 1002]" by simp
  from 1 2 insert_remove_round_trip [OF 1 2, of display_800x600] show ?thesis by blast
qed

subsection \<open>Tiling\<close>

text \<open>A tree with the invariant has a finite rectangle of positive width and height at
  its root, so a collapse that promotes a leaf keeps the invariant: the promoted leaf
  takes the rectangle of the node.\<close>

lemma tiling_positive:
  "tiling t \<Longrightarrow> \<exists>x y w h. real_rect (rect t) = Some (x, y, w, h) \<and> 0 < w \<and> 0 < h"
proof (induction t)
  case (BSPNode il wid r sv fo so)
  show ?case
  proof (cases il)
    case True
    with BSPNode.prems show ?thesis by (auto split: option.splits)
  next
    case False
    with BSPNode.prems obtain f s where
      fs: "fo = Some f" "so = Some s" "tiles sv r (rect f) (rect s)" "tiling f" "tiling s"
      by (auto split: option.splits)
    from BSPNode.IH(1) [of f] fs obtain x1 y1 w1 h1 where
      pf: "real_rect (rect f) = Some (x1, y1, w1, h1)" "0 < w1" "0 < h1" by auto
    from BSPNode.IH(2) [of s] fs obtain x2 y2 w2 h2 where
      ps: "real_rect (rect s) = Some (x2, y2, w2, h2)" "0 < w2" "0 < h2" by auto
    from fs(3) pf ps show ?thesis
      by (cases sv) (auto simp: tiles_def split: option.splits)
  qed
qed

lemma collapse_to_leaf_keeps_tiling:
  assumes "tiling n" "bsp_collapse_empty_branches n = Some n'" "is_leaf n'"
  shows "tiling n'"
proof -
  from assms(2) have "rect n' = rect n" by (rule rect_collapse)
  with tiling_positive [OF assms(1)] assms(3) show ?thesis by (cases n') auto
qed

text \<open>
  Claim C1. After any sequence of inserts and removes on a root with a positive
  rectangle, every leaf should have positive width and height and the children of every
  internal node should tile the node's rectangle along its orientation. On the 800 by 600
  display, after inserting windows 1000, 1001 and 1002 the tree has the invariant;
  removing 1001 makes \<^verbatim>\<open>bsp_collapse_empty_branches\<close> promote the internal first child
  into the root (lines 260-275), which keeps the root's rectangle and adopts the
  grandchildren with the rectangles they had. The root is then 800 wide and its two
  children are 400 wide: the right half of the display belongs to no leaf, and the
  invariant is lost.
\<close>

theorem collapse_breaks_tiling:
  "tiling (bsp_create_root display_800x600) \<and>
   run [Insert 1000 True True, Insert 1001 True True, Insert 1002 True True]
     (bsp_create_root display_800x600) = Some three_windows \<and>
   tiling three_windows \<and>
   run [Insert 1000 True True, Insert 1001 True True, Insert 1002 True True, Remove 1001]
     (bsp_create_root display_800x600) = Some after_removal \<and>
   \<not> tiling after_removal \<and>
   after_removal =
     BSPNode False (- 1)
       \<lparr>origin_x = Finite 0, origin_y = Finite 0,
          size_width = Finite 800, size_height = Finite 600\<rparr> False
       (Some (BSPNode True 1000
          \<lparr>origin_x = Finite 0, origin_y = Finite 0,
             size_width = Finite 400, size_height = Finite 300\<rparr>
          False None None))
       (Some (BSPNode True 1002
          \<lparr>origin_x = Finite 0, origin_y = Finite 300,
             size_width = Finite 400, size_height = Finite 300\<rparr>
          False None None))"
  by (simp add: bsp_create_root_def bsp_split_leaf_def Let_def display_800x600_def
      three_windows_def after_removal_def bsp_collapse_empty_branches_def tiles_def
      real_rect_def tiling.simps)

end
